theory Spec2Isabelle
  imports Main "HOL-Library.Word"
begin

section \<open>Bytes, files and the struct codec\<close>

text \<open>
  A Python \<open>bytes\<close> value is a list of 8-bit words. Python integers are unbounded and
  are modelled as \<open>int\<close>. Every exception the storage engine can raise is a value of
  \<open>error\<close>; an operation that can raise returns \<open>error + 'a\<close>, with \<open>Inl\<close> the
  exception.
\<close>

type_synonym byte = "8 word"
type_synonym bytes = "byte list"

datatype error =
    DuplicateKey          \<comment> \<open>\<open>ValueError('duplicate key')\<close>\<close>
  | IndexFull             \<comment> \<open>\<open>RuntimeError('index full')\<close>\<close>
  | NotFound              \<comment> \<open>\<open>KeyError('not found')\<close>\<close>
  | BadFormat             \<comment> \<open>\<open>RuntimeError('bad file format ...')\<close>\<close>
  | ShortHeader           \<comment> \<open>\<open>RuntimeError\<close> of the header inspector: fewer than 128 bytes\<close>
  | StructError           \<comment> \<open>\<open>struct.error\<close>: value out of range, or buffer of the wrong length\<close>
  | ZeroDivisionError     \<comment> \<open>\<open>%\<close> or \<open>//\<close> by zero\<close>
  | AssertionError        \<comment> \<open>\<open>assert len(data) == self.rsize\<close>\<close>
  | OSError               \<comment> \<open>\<open>seek\<close> to a negative offset\<close>
  | IndexError            \<comment> \<open>\<open>rec[0] = 0\<close> on an empty bytearray\<close>
  | TypeError             \<comment> \<open>\<open>struct.unpack\<close> applied to \<open>None\<close>\<close>
  | ValueError            \<comment> \<open>\<open>date(y, m, d)\<close> with an impossible date\<close>
  | UnboundLocalError     \<comment> \<open>a local variable read before its assignment\<close>

definition HEADER_SIZE :: int where "HEADER_SIZE = 128"
definition INDEX_SLOT_SIZE :: int where "INDEX_SLOT_SIZE = 16"
definition TOMBSTONE_KEY :: int where "TOMBSTONE_KEY = 4294967295"

subsection \<open>Positioned reads and writes on a file\<close>

text \<open>
  \<open>f.seek(ofs); f.read(n)\<close> returns the bytes from \<open>ofs\<close>, at most \<open>n\<close> of them and
  fewer at the end of the file. \<open>f.seek(ofs); f.write(d)\<close> overwrites in place, grows
  the file when it writes past the end, and fills a gap between the old end and
  \<open>ofs\<close> with zero bytes; writing nothing changes nothing. Seeking to a negative
  offset raises.
\<close>

definition file_read :: "bytes \<Rightarrow> int \<Rightarrow> nat \<Rightarrow> error + bytes" where
  "file_read fb ofs n = (if ofs < 0 then Inl OSError else Inr (take n (drop (nat ofs) fb)))"

definition write_at :: "bytes \<Rightarrow> nat \<Rightarrow> bytes \<Rightarrow> bytes" where
  "write_at fb ofs d =
     (if d = [] then fb
      else take ofs (fb @ replicate (ofs - length fb) 0) @ d @ drop (ofs + length d) fb)"

definition file_write :: "bytes \<Rightarrow> int \<Rightarrow> bytes \<Rightarrow> error + bytes" where
  "file_write fb ofs d = (if ofs < 0 then Inl OSError else Inr (write_at fb (nat ofs) d))"

subsection \<open>struct.pack and struct.unpack\<close>

primrec le_bytes :: "nat \<Rightarrow> int \<Rightarrow> bytes" where
  "le_bytes 0 v = []"
| "le_bytes (Suc n) v = word_of_int (v mod 256) # le_bytes n (v div 256)"

primrec le_int :: "bytes \<Rightarrow> int" where
  "le_int [] = 0"
| "le_int (b # bs) = uint b + 256 * le_int bs"

definition be_int :: "bytes \<Rightarrow> int" where
  "be_int bs = le_int (rev bs)"

text \<open>Format codes \<open>B\<close>, \<open>H\<close>, \<open>I\<close> (unsigned, 1, 2 and 4 bytes) and \<open>i\<close> (signed, 4 bytes)
  under the prefix \<open><\<close>: no alignment, little-endian, and \<open>struct.error\<close> when the
  argument is out of range.\<close>

definition pack_uint :: "nat \<Rightarrow> int \<Rightarrow> error + bytes" where
  "pack_uint n v = (if 0 \<le> v \<and> v < 256 ^ n then Inr (le_bytes n v) else Inl StructError)"

definition pack_B :: "int \<Rightarrow> error + bytes" where "pack_B = pack_uint 1"
definition pack_H :: "int \<Rightarrow> error + bytes" where "pack_H = pack_uint 2"
definition pack_I :: "int \<Rightarrow> error + bytes" where "pack_I = pack_uint 4"

definition pack_i :: "int \<Rightarrow> error + bytes" where
  "pack_i v = (if - 2147483648 \<le> v \<and> v < 2147483648
               then Inr (le_bytes 4 (v mod 4294967296)) else Inl StructError)"

definition unpack_i :: "bytes \<Rightarrow> int" where
  "unpack_i bs = (let u = le_int bs in if u \<ge> 2147483648 then u - 4294967296 else u)"

definition be_unpack_i :: "bytes \<Rightarrow> int" where
  "be_unpack_i bs = (let u = be_int bs in if u \<ge> 2147483648 then u - 4294967296 else u)"

text \<open>Format code \<open>Ns\<close>: the bytes argument cut or zero-padded to exactly \<open>N\<close> bytes.\<close>

definition pack_s :: "nat \<Rightarrow> bytes \<Rightarrow> error + bytes" where
  "pack_s n b = Inr (take n b @ replicate (n - length b) 0)"

text \<open>Format code \<open>Nx\<close>: \<open>N\<close> zero bytes.\<close>

definition pack_x :: "nat \<Rightarrow> error + bytes" where
  "pack_x n = Inr (replicate n 0)"

text \<open>\<open>struct.pack\<close> of several fields: the concatenation, or \<open>struct.error\<close> if any
  field is out of range.\<close>

fun pack_fields :: "(error + bytes) list \<Rightarrow> error + bytes" where
  "pack_fields [] = Inr []"
| "pack_fields (Inl e # ps) = Inl e"
| "pack_fields (Inr b # ps) = (case pack_fields ps of Inl e \<Rightarrow> Inl e | Inr bs \<Rightarrow> Inr (b @ bs))"

definition slice :: "bytes \<Rightarrow> nat \<Rightarrow> nat \<Rightarrow> bytes" where
  "slice b ofs n = take n (drop ofs b)"

section \<open>Header and index slot\<close>

record header =
  magic :: bytes
  version :: int
  endian :: int
  record_size :: int
  created_at :: int
  updated_at :: int
  next_id :: int
  active_count :: int
  deleted_count :: int
  free_head :: int
  index_slots :: int

text \<open>\<open>HEADER_FMT = '<4s B B H I I I I I i I 92x'\<close>, 128 bytes.\<close>

definition Header_pack :: "header \<Rightarrow> error + bytes" where
  "Header_pack hr =
     pack_fields [pack_s 4 (magic hr), pack_B (version hr), pack_B (endian hr),
                  pack_H (record_size hr), pack_I (created_at hr), pack_I (updated_at hr),
                  pack_I (next_id hr), pack_I (active_count hr), pack_I (deleted_count hr),
                  pack_i (free_head hr), pack_I (index_slots hr), pack_x 92]"

definition Header_unpack :: "bytes \<Rightarrow> error + header" where
  "Header_unpack b =
     (if length b \<noteq> 128 then Inl StructError
      else Inr \<lparr> magic = slice b 0 4, version = le_int (slice b 4 1), endian = le_int (slice b 5 1),
                 record_size = le_int (slice b 6 2), created_at = le_int (slice b 8 4),
                 updated_at = le_int (slice b 12 4), next_id = le_int (slice b 16 4),
                 active_count = le_int (slice b 20 4), deleted_count = le_int (slice b 24 4),
                 free_head = unpack_i (slice b 28 4), index_slots = le_int (slice b 32 4) \<rparr>)"

definition Header_new :: "bytes \<Rightarrow> int \<Rightarrow> int \<Rightarrow> int \<Rightarrow> header" where
  "Header_new mg rsz nslots t =
     \<lparr> magic = mg, version = 1, endian = 0, record_size = rsz, created_at = t, updated_at = t,
       next_id = 1, active_count = 0, deleted_count = 0, free_head = - 1, index_slots = nslots \<rparr>"

record index_slot =
  key :: int
  rec_index :: int

text \<open>\<open>INDEX_FMT = '<I I 8x'\<close>, 16 bytes.\<close>

definition IndexSlot_pack :: "index_slot \<Rightarrow> error + bytes" where
  "IndexSlot_pack sl = pack_fields [pack_I (key sl), pack_I (rec_index sl), pack_x 8]"

definition IndexSlot_unpack :: "bytes \<Rightarrow> error + index_slot" where
  "IndexSlot_unpack b =
     (if length b \<noteq> 16 then Inl StructError
      else Inr \<lparr> key = le_int (slice b 0 4), rec_index = le_int (slice b 4 4) \<rparr>)"

section \<open>The table engine (class BinTable of the interactive application)\<close>

text \<open>
  The constructor's arguments are the table's configuration; an opened table adds the
  cached header \<open>self.h\<close> and the contents of the file \<open>self.f\<close>. Record width and pad
  offset are byte counts. A method that mutates the table returns its result together
  with the table as the call leaves it, also when it raises: the menu loop catches the
  exception and keeps using the same object.
\<close>

record table_cfg =
  tmagic :: bytes
  rsize :: nat
  slots :: int
  pad_off :: nat

record bintable = table_cfg +
  hdr :: header
  fbytes :: bytes

definition range_py :: "int \<Rightarrow> int list" where
  "range_py n = map int [0..<nat n]"

definition index_ofs :: "int \<Rightarrow> int" where
  "index_ofs slot = HEADER_SIZE + slot * INDEX_SLOT_SIZE"

definition read_slot :: "bintable \<Rightarrow> int \<Rightarrow> error + index_slot" where
  "read_slot t slot =
     (case file_read (fbytes t) (index_ofs slot) (nat INDEX_SLOT_SIZE) of
        Inl e \<Rightarrow> Inl e
      | Inr b \<Rightarrow> IndexSlot_unpack b)"

definition write_slot :: "bintable \<Rightarrow> int \<Rightarrow> index_slot \<Rightarrow> error + bintable" where
  "write_slot t slot slotval =
     (if index_ofs slot < 0 then Inl OSError
      else case IndexSlot_pack slotval of
        Inl e \<Rightarrow> Inl e
      | Inr b \<Rightarrow> (case file_write (fbytes t) (index_ofs slot) b of
                    Inl e \<Rightarrow> Inl e
                  | Inr fb \<Rightarrow> Inr (t\<lparr>fbytes := fb\<rparr>)))"

definition hash :: "bintable \<Rightarrow> int \<Rightarrow> error + int" where
  "hash t k = (if index_slots (hdr t) = 0 then Inl ZeroDivisionError
               else Inr (k mod index_slots (hdr t)))"

text \<open>The body of the \<open>for\<close> loop of \<open>_find_slot_for_insert\<close>, over the remaining values
  of \<open>i\<close>; \<open>first_tomb\<close> is the loop's variable of that name.\<close>

fun find_slot_loop :: "bintable \<Rightarrow> int \<Rightarrow> int \<Rightarrow> int \<Rightarrow> int list \<Rightarrow> error + int" where
  "find_slot_loop t k start first_tomb [] = Inl IndexFull"
| "find_slot_loop t k start first_tomb (i # is) =
     (let j = (start + i) mod index_slots (hdr t) in
      case read_slot t j of
        Inl e \<Rightarrow> Inl e
      | Inr sl \<Rightarrow>
          if key sl = k then Inl DuplicateKey
          else let first_tomb' = (if key sl = TOMBSTONE_KEY \<and> first_tomb < 0 then j else first_tomb)
               in if key sl = 0 then Inr (if first_tomb' \<ge> 0 then first_tomb' else j)
                  else find_slot_loop t k start first_tomb' is)"

definition find_slot_for_insert :: "bintable \<Rightarrow> int \<Rightarrow> error + int" where
  "find_slot_for_insert t k =
     (case hash t k of
        Inl e \<Rightarrow> Inl e
      | Inr start \<Rightarrow> find_slot_loop t k start (- 1) (range_py (index_slots (hdr t))))"

fun lookup_loop :: "bintable \<Rightarrow> int \<Rightarrow> int \<Rightarrow> int list \<Rightarrow> error + int option" where
  "lookup_loop t k start [] = Inr None"
| "lookup_loop t k start (i # is) =
     (let j = (start + i) mod index_slots (hdr t) in
      case read_slot t j of
        Inl e \<Rightarrow> Inl e
      | Inr sl \<Rightarrow>
          if key sl = 0 then Inr None
          else if key sl = k then Inr (Some (rec_index sl))
          else lookup_loop t k start is)"

definition lookup :: "bintable \<Rightarrow> int \<Rightarrow> error + int option" where
  "lookup t k =
     (case hash t k of
        Inl e \<Rightarrow> Inl e
      | Inr start \<Rightarrow> lookup_loop t k start (range_py (index_slots (hdr t))))"

fun slot_of_key_loop :: "bintable \<Rightarrow> int \<Rightarrow> int \<Rightarrow> int list \<Rightarrow> error + int option" where
  "slot_of_key_loop t k start [] = Inr None"
| "slot_of_key_loop t k start (i # is) =
     (let j = (start + i) mod index_slots (hdr t) in
      case read_slot t j of
        Inl e \<Rightarrow> Inl e
      | Inr sl \<Rightarrow>
          if key sl = 0 then Inr None
          else if key sl = k then Inr (Some j)
          else slot_of_key_loop t k start is)"

definition slot_of_key :: "bintable \<Rightarrow> int \<Rightarrow> error + int option" where
  "slot_of_key t k =
     (case hash t k of
        Inl e \<Rightarrow> Inl e
      | Inr start \<Rightarrow> slot_of_key_loop t k start (range_py (index_slots (hdr t))))"

subsection \<open>Record space\<close>

definition records_region_ofs :: "bintable \<Rightarrow> int" where
  "records_region_ofs t = HEADER_SIZE + index_slots (hdr t) * INDEX_SLOT_SIZE"

definition record_ofs :: "bintable \<Rightarrow> int \<Rightarrow> int" where
  "record_ofs t ri = records_region_ofs t + ri * int (rsize t)"

definition records_count :: "bintable \<Rightarrow> error + int" where
  "records_count t =
     (let payload = int (length (fbytes t)) - records_region_ofs t
      in if payload \<le> 0 then Inr 0
         else if rsize t = 0 then Inl ZeroDivisionError
         else Inr (payload div int (rsize t)))"

definition read_raw :: "bintable \<Rightarrow> int \<Rightarrow> error + bytes" where
  "read_raw t ri = file_read (fbytes t) (record_ofs t ri) (rsize t)"

definition write_raw :: "bintable \<Rightarrow> int \<Rightarrow> bytes \<Rightarrow> error + bintable" where
  "write_raw t ri d =
     (if length d \<noteq> rsize t then Inl AssertionError
      else case file_write (fbytes t) (record_ofs t ri) d of
        Inl e \<Rightarrow> Inl e
      | Inr fb \<Rightarrow> Inr (t\<lparr>fbytes := fb\<rparr>))"

definition write_next_free :: "bintable \<Rightarrow> int \<Rightarrow> int \<Rightarrow> error + bintable" where
  "write_next_free t ri next_free =
     (if record_ofs t ri + int (pad_off t) < 0 then Inl OSError
      else case pack_i next_free of
        Inl e \<Rightarrow> Inl e
      | Inr b \<Rightarrow> (case file_write (fbytes t) (record_ofs t ri + int (pad_off t)) b of
                    Inl e \<Rightarrow> Inl e
                  | Inr fb \<Rightarrow> Inr (t\<lparr>fbytes := fb\<rparr>)))"

subsection \<open>Header persistence and the CRUD operations\<close>

text \<open>\<open>now\<close> is the value \<open>now_ts()\<close> returns during the call. The cached header takes
  the new \<open>updated_at\<close> before it is packed, so it keeps it when packing raises.\<close>

definition write_header :: "int \<Rightarrow> bintable \<Rightarrow> (error + unit) \<times> bintable" where
  "write_header now t =
     (let t1 = t\<lparr>hdr := (hdr t)\<lparr>updated_at := now\<rparr>\<rparr>
      in case Header_pack (hdr t1) of
           Inl e \<Rightarrow> (Inl e, t1)
         | Inr b \<Rightarrow> (Inr (), t1\<lparr>fbytes := write_at (fbytes t1) 0 b\<rparr>))"

definition alloc_rec_index :: "bintable \<Rightarrow> (error + int) \<times> bintable" where
  "alloc_rec_index t =
     (if free_head (hdr t) \<noteq> - 1 then
        (let i = free_head (hdr t) in
         case file_read (fbytes t) (record_ofs t i + int (pad_off t)) 4 of
           Inl e \<Rightarrow> (Inl e, t)
         | Inr b \<Rightarrow> if length b \<noteq> 4 then (Inl StructError, t)
                    else (Inr i, t\<lparr>hdr := (hdr t)\<lparr>free_head := unpack_i b\<rparr>\<rparr>))
      else (records_count t, t))"

definition add_record :: "int \<Rightarrow> bintable \<Rightarrow> int \<Rightarrow> bytes \<Rightarrow> (error + int) \<times> bintable" where
  "add_record now t k packed =
     (case alloc_rec_index t of
        (Inl e, t1) \<Rightarrow> (Inl e, t1)
      | (Inr i, t1) \<Rightarrow>
     (case write_raw t1 i packed of
        Inl e \<Rightarrow> (Inl e, t1)
      | Inr t2 \<Rightarrow>
     (case find_slot_for_insert t2 k of
        Inl e \<Rightarrow> (Inl e, t2)
      | Inr j \<Rightarrow>
     (case write_slot t2 j \<lparr>key = k, rec_index = i\<rparr> of
        Inl e \<Rightarrow> (Inl e, t2)
      | Inr t3 \<Rightarrow>
     (case write_header now (t3\<lparr>hdr := (hdr t3)\<lparr>active_count := active_count (hdr t3) + 1\<rparr>\<rparr>) of
        (Inl e, t4) \<Rightarrow> (Inl e, t4)
      | (Inr u, t4) \<Rightarrow> (Inr i, t4))))))"

definition read_record :: "bintable \<Rightarrow> int \<Rightarrow> error + bytes option" where
  "read_record t k =
     (case lookup t k of
        Inl e \<Rightarrow> Inl e
      | Inr None \<Rightarrow> Inr None
      | Inr (Some ri) \<Rightarrow> (case read_raw t ri of Inl e \<Rightarrow> Inl e | Inr b \<Rightarrow> Inr (Some b)))"

definition update_record :: "int \<Rightarrow> bintable \<Rightarrow> int \<Rightarrow> bytes \<Rightarrow> (error + unit) \<times> bintable" where
  "update_record now t k packed =
     (case lookup t k of
        Inl e \<Rightarrow> (Inl e, t)
      | Inr None \<Rightarrow> (Inl NotFound, t)
      | Inr (Some ri) \<Rightarrow>
     (case write_raw t ri packed of
        Inl e \<Rightarrow> (Inl e, t)
      | Inr t1 \<Rightarrow> write_header now t1))"

text \<open>\<open>delete_record\<close>, statement by statement: clear the flag byte, push the record on
  the free list, tombstone the index slot, adjust the counters, persist the header.\<close>

definition tombstone_slot :: "bintable \<Rightarrow> int \<Rightarrow> error + bintable" where
  "tombstone_slot t k =
     (case slot_of_key t k of
        Inl e \<Rightarrow> Inl e
      | Inr None \<Rightarrow> Inr t
      | Inr (Some sj) \<Rightarrow> write_slot t sj \<lparr>key = TOMBSTONE_KEY, rec_index = 0\<rparr>)"

definition delete_record :: "int \<Rightarrow> bintable \<Rightarrow> int \<Rightarrow> (error + unit) \<times> bintable" where
  "delete_record now t k =
     (case lookup t k of
        Inl e \<Rightarrow> (Inl e, t)
      | Inr None \<Rightarrow> (Inl NotFound, t)
      | Inr (Some ri) \<Rightarrow>
     (case read_raw t ri of
        Inl e \<Rightarrow> (Inl e, t)
      | Inr raw \<Rightarrow>
     (if raw = [] then (Inl IndexError, t)
      else case write_raw t ri (raw[0 := 0]) of
        Inl e \<Rightarrow> (Inl e, t)
      | Inr t1 \<Rightarrow>
     (case write_next_free t1 ri (free_head (hdr t1)) of
        Inl e \<Rightarrow> (Inl e, t1)
      | Inr t2 \<Rightarrow>
     (let t3 = t2\<lparr>hdr := (hdr t2)\<lparr>free_head := ri\<rparr>\<rparr> in
      case tombstone_slot t3 k of
        Inl e \<Rightarrow> (Inl e, t3)
      | Inr t4 \<Rightarrow>
          write_header now
            (t4\<lparr>hdr := (hdr t4)\<lparr>active_count := active_count (hdr t4) - 1,
                                 deleted_count := deleted_count (hdr t4) + 1\<rparr>\<rparr>))))))"

subsection \<open>Opening a table\<close>

text \<open>A file that does not exist is created with a fresh header and \<open>slots\<close> empty index
  slots; an existing file has its header read and checked.\<close>

definition open_new :: "int \<Rightarrow> table_cfg \<Rightarrow> error + bintable" where
  "open_new now c =
     (let hr = Header_new (tmagic c) (int (rsize c)) (slots c) now in
      case Header_pack hr of
        Inl e \<Rightarrow> Inl e
      | Inr hb \<Rightarrow>
     (case IndexSlot_pack \<lparr>key = 0, rec_index = 0\<rparr> of
        Inl e \<Rightarrow> Inl e
      | Inr sb \<Rightarrow>
          Inr \<lparr> tmagic = tmagic c, rsize = rsize c, slots = slots c, pad_off = pad_off c,
                hdr = hr, fbytes = hb @ concat (replicate (nat (slots c)) sb) \<rparr>))"

definition open_existing :: "table_cfg \<Rightarrow> bytes \<Rightarrow> error + bintable" where
  "open_existing c fb =
     (case Header_unpack (take (nat HEADER_SIZE) fb) of
        Inl e \<Rightarrow> Inl e
      | Inr hr \<Rightarrow>
          if magic hr \<noteq> tmagic c \<or> record_size hr \<noteq> int (rsize c) then Inl BadFormat
          else Inr \<lparr> tmagic = tmagic c, rsize = rsize c, slots = slots c, pad_off = pad_off c,
                     hdr = hr, fbytes = fb \<rparr>)"

section \<open>The table engine of the seeding tool\<close>

text \<open>
  \<open>seed_sample_data.py\<close> carries its own \<open>BinTable\<close>. Its helpers \<open>_hash\<close>,
  \<open>_read_slot\<close>, \<open>_write_slot\<close>, \<open>_records_count\<close>, \<open>_read_raw\<close>, \<open>_write_raw\<close>,
  \<open>_alloc\<close> and \<open>_write_header\<close> are the same text as the application's and share the
  definitions above. Its \<open>Header.new\<close>, \<open>open\<close>, \<open>_find_slot\<close>, \<open>_lookup\<close>, \<open>add_record\<close>,
  \<open>read_record\<close> and \<open>update_record\<close> are modelled here from the seeding tool's own
  text; the class has no \<open>delete_record\<close> and no tombstone constant.
\<close>

text \<open>\<open>Header.new\<close> of the seeding tool calls \<open>now()\<close> once for \<open>created_at\<close> and once more
  for \<open>updated_at\<close>; \<open>t1\<close> and \<open>t2\<close> are the two readings.\<close>

definition seed_Header_new :: "bytes \<Rightarrow> int \<Rightarrow> int \<Rightarrow> int \<Rightarrow> int \<Rightarrow> header" where
  "seed_Header_new mg rsz nslots t1 t2 =
     \<lparr> magic = mg, version = 1, endian = 0, record_size = rsz, created_at = t1, updated_at = t2,
       next_id = 1, active_count = 0, deleted_count = 0, free_head = - 1, index_slots = nslots \<rparr>"

definition seed_open_new :: "int \<Rightarrow> int \<Rightarrow> table_cfg \<Rightarrow> error + bintable" where
  "seed_open_new now1 now2 c =
     (let hr = seed_Header_new (tmagic c) (int (rsize c)) (slots c) now1 now2 in
      case Header_pack hr of
        Inl e \<Rightarrow> Inl e
      | Inr hb \<Rightarrow>
     (case IndexSlot_pack \<lparr>key = 0, rec_index = 0\<rparr> of
        Inl e \<Rightarrow> Inl e
      | Inr sb \<Rightarrow>
          Inr \<lparr> tmagic = tmagic c, rsize = rsize c, slots = slots c, pad_off = pad_off c,
                hdr = hr, fbytes = hb @ concat (replicate (nat (slots c)) sb) \<rparr>))"

definition seed_open_existing :: "table_cfg \<Rightarrow> bytes \<Rightarrow> error + bintable" where
  "seed_open_existing c fb =
     (case Header_unpack (take (nat HEADER_SIZE) fb) of
        Inl e \<Rightarrow> Inl e
      | Inr hr \<Rightarrow>
          if magic hr \<noteq> tmagic c \<or> record_size hr \<noteq> int (rsize c) then Inl BadFormat
          else Inr \<lparr> tmagic = tmagic c, rsize = rsize c, slots = slots c, pad_off = pad_off c,
                     hdr = hr, fbytes = fb \<rparr>)"

fun seed_find_slot_loop ::
  "bintable \<Rightarrow> int \<Rightarrow> int \<Rightarrow> int list \<Rightarrow> error + (int \<times> index_slot option)" where
  "seed_find_slot_loop t k start [] = Inl IndexFull"
| "seed_find_slot_loop t k start (i # is) =
     (let j = (start + i) mod index_slots (hdr t) in
      case read_slot t j of
        Inl e \<Rightarrow> Inl e
      | Inr sl \<Rightarrow>
          if key sl = 0 \<or> key sl = k then Inr (j, if key sl = 0 then None else Some sl)
          else seed_find_slot_loop t k start is)"

definition seed_find_slot :: "bintable \<Rightarrow> int \<Rightarrow> error + (int \<times> index_slot option)" where
  "seed_find_slot t k =
     (case hash t k of
        Inl e \<Rightarrow> Inl e
      | Inr start \<Rightarrow> seed_find_slot_loop t k start (range_py (index_slots (hdr t))))"

definition seed_add_record :: "int \<Rightarrow> bintable \<Rightarrow> int \<Rightarrow> bytes \<Rightarrow> (error + int) \<times> bintable" where
  "seed_add_record now t k packed =
     (case alloc_rec_index t of
        (Inl e, t1) \<Rightarrow> (Inl e, t1)
      | (Inr i, t1) \<Rightarrow>
     (case write_raw t1 i packed of
        Inl e \<Rightarrow> (Inl e, t1)
      | Inr t2 \<Rightarrow>
     (case seed_find_slot t2 k of
        Inl e \<Rightarrow> (Inl e, t2)
      | Inr (slot, Some cur) \<Rightarrow> (Inl DuplicateKey, t2)
      | Inr (slot, None) \<Rightarrow>
     (case write_slot t2 slot \<lparr>key = k, rec_index = i\<rparr> of
        Inl e \<Rightarrow> (Inl e, t2)
      | Inr t3 \<Rightarrow>
     (case write_header now (t3\<lparr>hdr := (hdr t3)\<lparr>active_count := active_count (hdr t3) + 1\<rparr>\<rparr>) of
        (Inl e, t4) \<Rightarrow> (Inl e, t4)
      | (Inr u, t4) \<Rightarrow> (Inr i, t4))))))"

fun seed_lookup_loop :: "bintable \<Rightarrow> int \<Rightarrow> int \<Rightarrow> int list \<Rightarrow> error + int option" where
  "seed_lookup_loop t k start [] = Inr None"
| "seed_lookup_loop t k start (i # is) =
     (let j = (start + i) mod index_slots (hdr t) in
      case read_slot t j of
        Inl e \<Rightarrow> Inl e
      | Inr sl \<Rightarrow>
          if key sl = 0 then Inr None
          else if key sl = k then Inr (Some (rec_index sl))
          else seed_lookup_loop t k start is)"

definition seed_lookup :: "bintable \<Rightarrow> int \<Rightarrow> error + int option" where
  "seed_lookup t k =
     (case hash t k of
        Inl e \<Rightarrow> Inl e
      | Inr start \<Rightarrow> seed_lookup_loop t k start (range_py (index_slots (hdr t))))"

definition seed_read_record :: "bintable \<Rightarrow> int \<Rightarrow> error + bytes option" where
  "seed_read_record t k =
     (case seed_lookup t k of
        Inl e \<Rightarrow> Inl e
      | Inr None \<Rightarrow> Inr None
      | Inr (Some ri) \<Rightarrow> (case read_raw t ri of Inl e \<Rightarrow> Inl e | Inr b \<Rightarrow> Inr (Some b)))"

definition seed_update_record :: "int \<Rightarrow> bintable \<Rightarrow> int \<Rightarrow> bytes \<Rightarrow> (error + unit) \<times> bintable" where
  "seed_update_record now t k packed =
     (case seed_lookup t k of
        Inl e \<Rightarrow> (Inl e, t)
      | Inr None \<Rightarrow> (Inl NotFound, t)
      | Inr (Some ri) \<Rightarrow>
     (case write_raw t ri packed of
        Inl e \<Rightarrow> (Inl e, t)
      | Inr t1 \<Rightarrow> write_header now t1))"

text \<open>What \<open>add_record\<close> of the seeding tool takes from its probe (lines 183 and 184):
  the slot to write, or the duplicate-key error when the probe hands back a slot that
  holds the key.\<close>

definition seed_insert_slot :: "bintable \<Rightarrow> int \<Rightarrow> error + int" where
  "seed_insert_slot t k =
     (case seed_find_slot t k of
        Inl e \<Rightarrow> Inl e
      | Inr (slot, Some cur) \<Rightarrow> Inl DuplicateKey
      | Inr (slot, None) \<Rightarrow> Inr slot)"

section \<open>The header inspector (inspect\_header.py)\<close>

text \<open>\<open>Header.unpack(raw, '>')\<close>: the same layout read big-endian.\<close>

definition Header_unpack_be :: "bytes \<Rightarrow> error + header" where
  "Header_unpack_be b =
     (if length b \<noteq> 128 then Inl StructError
      else Inr \<lparr> magic = slice b 0 4, version = be_int (slice b 4 1), endian = be_int (slice b 5 1),
                 record_size = be_int (slice b 6 2), created_at = be_int (slice b 8 4),
                 updated_at = be_int (slice b 12 4), next_id = be_int (slice b 16 4),
                 active_count = be_int (slice b 20 4), deleted_count = be_int (slice b 24 4),
                 free_head = be_unpack_i (slice b 28 4), index_slots = be_int (slice b 32 4) \<rparr>)"

text \<open>\<open>read_header\<close> on a file with contents \<open>fb\<close>: the header, the file size and the
  number of records the size accounts for.\<close>

definition read_header :: "bytes \<Rightarrow> error + (header \<times> int \<times> int)" where
  "read_header fb =
     (let raw = take 128 fb in
      if length raw \<noteq> 128 then Inl ShortHeader
      else case Header_unpack raw of
        Inl e \<Rightarrow> Inl e
      | Inr h0 \<Rightarrow>
     (case (if endian h0 = 1 then Header_unpack_be raw else Inr h0) of
        Inl e \<Rightarrow> Inl e
      | Inr hr \<Rightarrow>
          let size = int (length fb);
              records_region = HEADER_SIZE + index_slots hr * INDEX_SLOT_SIZE
          in if size \<ge> records_region
             then (if record_size hr = 0 then Inl ZeroDivisionError
                   else Inr (hr, size, (size - records_region) div record_size hr))
             else Inr (hr, size, 0)))"

section \<open>Record codecs of the three entity tables\<close>

subsection \<open>Text fields\<close>

text \<open>
  A Python \<open>str\<close> is a list of code points. \<open>s.encode('utf-8', 'ignore')\<close> writes one to
  four bytes per code point and drops a surrogate, which has no encoding.
  \<open>b.decode('utf-8', 'ignore')\<close> reads the well-formed sequences and skips the bytes of
  an ill-formed one: a byte that cannot start a sequence, or the bytes of a sequence
  before the first byte that cannot continue it; a sequence cut off by the end of the
  input is dropped.
\<close>

type_synonym str = "nat list"

definition utf8_encode_cp :: "nat \<Rightarrow> bytes" where
  "utf8_encode_cp c =
     (if c < 128 then [of_nat c]
      else if c < 2048 then [of_nat (192 + c div 64), of_nat (128 + c mod 64)]
      else if 55296 \<le> c \<and> c \<le> 57343 then []
      else if c < 65536 then
        [of_nat (224 + c div 4096), of_nat (128 + c div 64 mod 64), of_nat (128 + c mod 64)]
      else
        [of_nat (240 + c div 262144), of_nat (128 + c div 4096 mod 64),
         of_nat (128 + c div 64 mod 64), of_nat (128 + c mod 64)])"

definition utf8_encode :: "str \<Rightarrow> bytes" where
  "utf8_encode s = concat (map utf8_encode_cp s)"

definition is_cont :: "byte \<Rightarrow> bool" where
  "is_cont b \<longleftrightarrow> 128 \<le> unat b \<and> unat b < 192"

definition second_ok3 :: "nat \<Rightarrow> nat \<Rightarrow> bool" where
  "second_ok3 n0 n1 \<longleftrightarrow>
     (if n0 = 224 then 160 \<le> n1 \<and> n1 < 192
      else if n0 = 237 then 128 \<le> n1 \<and> n1 < 160
      else 128 \<le> n1 \<and> n1 < 192)"

definition second_ok4 :: "nat \<Rightarrow> nat \<Rightarrow> bool" where
  "second_ok4 n0 n1 \<longleftrightarrow>
     (if n0 = 240 then 144 \<le> n1 \<and> n1 < 192
      else if n0 = 244 then 128 \<le> n1 \<and> n1 < 144
      else 128 \<le> n1 \<and> n1 < 192)"

fun utf8_decode :: "bytes \<Rightarrow> str" where
  "utf8_decode [] = []"
| "utf8_decode (b0 # bs) =
     (let n0 = unat b0 in
      if n0 < 128 then n0 # utf8_decode bs
      else if 194 \<le> n0 \<and> n0 < 224 then
        (case bs of
           [] \<Rightarrow> []
         | b1 # r1 \<Rightarrow>
             if is_cont b1 then ((n0 - 192) * 64 + (unat b1 - 128)) # utf8_decode r1
             else utf8_decode bs)
      else if 224 \<le> n0 \<and> n0 < 240 then
        (case bs of
           [] \<Rightarrow> []
         | b1 # r1 \<Rightarrow>
             if second_ok3 n0 (unat b1) then
               (case r1 of
                  [] \<Rightarrow> []
                | b2 # r2 \<Rightarrow>
                    if is_cont b2 then
                      ((n0 - 224) * 4096 + (unat b1 - 128) * 64 + (unat b2 - 128)) # utf8_decode r2
                    else utf8_decode r1)
             else utf8_decode bs)
      else if 240 \<le> n0 \<and> n0 < 245 then
        (case bs of
           [] \<Rightarrow> []
         | b1 # r1 \<Rightarrow>
             if second_ok4 n0 (unat b1) then
               (case r1 of
                  [] \<Rightarrow> []
                | b2 # r2 \<Rightarrow>
                    if is_cont b2 then
                      (case r2 of
                         [] \<Rightarrow> []
                       | b3 # r3 \<Rightarrow>
                           if is_cont b3 then
                             ((n0 - 240) * 262144 + (unat b1 - 128) * 4096
                                + (unat b2 - 128) * 64 + (unat b3 - 128)) # utf8_decode r3
                           else utf8_decode r2)
                    else utf8_decode r1)
             else utf8_decode bs)
      else utf8_decode bs)"

text \<open>\<open>fit(s, n)\<close>: encode, cut to \<open>n\<close> bytes, pad with zero bytes to \<open>n\<close>.\<close>

definition fit :: "str \<Rightarrow> nat \<Rightarrow> bytes" where
  "fit s n = (let b = take n (utf8_encode s) in b @ replicate (n - length b) 0)"

definition rstrip0 :: "bytes \<Rightarrow> bytes" where
  "rstrip0 b = rev (dropWhile (\<lambda>x. x = 0) (rev b))"

text \<open>\<open>dec = lambda b: b.rstrip(b'\x00').decode('utf-8', 'ignore')\<close>\<close>

definition dec :: "bytes \<Rightarrow> str" where
  "dec b = utf8_decode (rstrip0 b)"

subsection \<open>Customers, Cars, Contracts\<close>

definition CUST_SIZE :: nat where "CUST_SIZE = 128"
definition CUST_PAD :: nat where "CUST_PAD = 83"
definition CARS_SIZE :: nat where "CARS_SIZE = 128"
definition CARS_PAD :: nat where "CARS_PAD = 60"
definition CONT_SIZE :: nat where "CONT_SIZE = 64"
definition CONT_PAD :: nat where "CONT_PAD = 26"

text \<open>The constructors: magic \<open>b'CUST'\<close>, \<open>b'CARS'\<close>, \<open>b'CONT'\<close>; the index size is the
  argument \<open>slots\<close> (by default 1024, 1024 and 2048).\<close>

definition Customers :: "int \<Rightarrow> table_cfg" where
  "Customers n = \<lparr> tmagic = [67, 85, 83, 84], rsize = CUST_SIZE, slots = n, pad_off = CUST_PAD \<rparr>"

definition Cars :: "int \<Rightarrow> table_cfg" where
  "Cars n = \<lparr> tmagic = [67, 65, 82, 83], rsize = CARS_SIZE, slots = n, pad_off = CARS_PAD \<rparr>"

definition Contracts :: "int \<Rightarrow> table_cfg" where
  "Contracts n = \<lparr> tmagic = [67, 79, 78, 84], rsize = CONT_SIZE, slots = n, pad_off = CONT_PAD \<rparr>"

record customer =
  cu_flag :: int
  cu_cus_id :: int
  cu_id_card :: str
  cu_name :: str
  cu_phone :: str
  cu_birth_ymd :: int
  cu_gender :: int

record car =
  ca_flag :: int
  ca_car_id :: int
  ca_license :: str
  ca_brand :: str
  ca_model :: str
  ca_year :: int
  ca_rate_cents :: int
  ca_odometer_km :: int
  ca_status :: int
  ca_updated_at :: int

record contract =
  co_flag :: int
  co_rent_id :: int
  co_cus_id :: int
  co_car_id :: int
  co_rent_ymd :: int
  co_return_ymd :: int
  co_total_cents :: int
  co_returned :: int

text \<open>\<open>CUST_FMT = '<B I 13s 50s 10s I B 45x'\<close>\<close>

definition Customers_pack ::
  "int \<Rightarrow> int \<Rightarrow> str \<Rightarrow> str \<Rightarrow> str \<Rightarrow> int \<Rightarrow> int \<Rightarrow> error + bytes" where
  "Customers_pack flag cid id_card name phone birth_ymd gender =
     pack_fields [pack_B flag, pack_I cid, pack_s 13 (fit id_card 13), pack_s 50 (fit name 50),
                  pack_s 10 (fit phone 10), pack_I birth_ymd, pack_B gender, pack_x 45]"

definition Customers_unpack :: "bytes \<Rightarrow> error + customer" where
  "Customers_unpack raw =
     (if length raw \<noteq> 128 then Inl StructError
      else Inr \<lparr> cu_flag = le_int (slice raw 0 1), cu_cus_id = le_int (slice raw 1 4),
                 cu_id_card = dec (slice raw 5 13), cu_name = dec (slice raw 18 50),
                 cu_phone = dec (slice raw 68 10), cu_birth_ymd = le_int (slice raw 78 4),
                 cu_gender = le_int (slice raw 82 1) \<rparr>)"

text \<open>\<open>CARS_FMT = '<B I 12s 12s 16s H I I B I 68x'\<close>\<close>

definition Cars_pack ::
  "int \<Rightarrow> int \<Rightarrow> str \<Rightarrow> str \<Rightarrow> str \<Rightarrow> int \<Rightarrow> int \<Rightarrow> int \<Rightarrow> int \<Rightarrow> int \<Rightarrow> error + bytes" where
  "Cars_pack flag car_id plate brand model year rate_cents odo_km status upd =
     pack_fields [pack_B flag, pack_I car_id, pack_s 12 (fit plate 12), pack_s 12 (fit brand 12),
                  pack_s 16 (fit model 16), pack_H year, pack_I rate_cents, pack_I odo_km,
                  pack_B status, pack_I upd, pack_x 68]"

definition Cars_unpack :: "bytes \<Rightarrow> error + car" where
  "Cars_unpack raw =
     (if length raw \<noteq> 128 then Inl StructError
      else Inr \<lparr> ca_flag = le_int (slice raw 0 1), ca_car_id = le_int (slice raw 1 4),
                 ca_license = dec (slice raw 5 12), ca_brand = dec (slice raw 17 12),
                 ca_model = dec (slice raw 29 16), ca_year = le_int (slice raw 45 2),
                 ca_rate_cents = le_int (slice raw 47 4), ca_odometer_km = le_int (slice raw 51 4),
                 ca_status = le_int (slice raw 55 1), ca_updated_at = le_int (slice raw 56 4) \<rparr>)"

text \<open>\<open>CONT_FMT = '<B I I I I I I B 38x'\<close>\<close>

definition Contracts_pack ::
  "int \<Rightarrow> int \<Rightarrow> int \<Rightarrow> int \<Rightarrow> int \<Rightarrow> int \<Rightarrow> int \<Rightarrow> int \<Rightarrow> error + bytes" where
  "Contracts_pack flag rid cus_id car_id rent ret tot returned =
     pack_fields [pack_B flag, pack_I rid, pack_I cus_id, pack_I car_id, pack_I rent, pack_I ret,
                  pack_I tot, pack_B returned, pack_x 38]"

definition Contracts_unpack :: "bytes \<Rightarrow> error + contract" where
  "Contracts_unpack raw =
     (if length raw \<noteq> 64 then Inl StructError
      else Inr \<lparr> co_flag = le_int (slice raw 0 1), co_rent_id = le_int (slice raw 1 4),
                 co_cus_id = le_int (slice raw 5 4), co_car_id = le_int (slice raw 9 4),
                 co_rent_ymd = le_int (slice raw 13 4), co_return_ymd = le_int (slice raw 17 4),
                 co_total_cents = le_int (slice raw 21 4), co_returned = le_int (slice raw 25 1) \<rparr>)"

section \<open>The application's return-car operation\<close>

text \<open>The three open tables of \<open>App\<close>.\<close>

record app =
  customers :: bintable
  cars :: bintable
  contracts :: bintable

text \<open>What the operation prints when it returns normally.\<close>

datatype outcome =
    MsgBadInput            \<comment> \<open>an input did not parse\<close>
  | MsgNoContract          \<comment> \<open>no contract under that id\<close>
  | MsgAlreadyClosed       \<comment> \<open>the contract is already returned\<close>
  | MsgBadDate             \<comment> \<open>the return date is before the rental date\<close>
  | MsgClosed int int      \<comment> \<open>contract closed: total and days\<close>

subsection \<open>\<open>datetime.date\<close>\<close>

definition is_leap :: "int \<Rightarrow> bool" where
  "is_leap y \<longleftrightarrow> y mod 4 = 0 \<and> (y mod 100 \<noteq> 0 \<or> y mod 400 = 0)"

definition days_in_month :: "int \<Rightarrow> int \<Rightarrow> int" where
  "days_in_month y m =
     (if m = 2 then (if is_leap y then 29 else 28)
      else if m = 4 \<or> m = 6 \<or> m = 9 \<or> m = 11 then 30 else 31)"

definition days_before_year :: "int \<Rightarrow> int" where
  "days_before_year y = (y - 1) * 365 + (y - 1) div 4 - (y - 1) div 100 + (y - 1) div 400"

definition days_before_month :: "int \<Rightarrow> int \<Rightarrow> int" where
  "days_before_month y m = sum_list (map (days_in_month y) [1..m - 1])"

definition toordinal :: "int \<times> int \<times> int \<Rightarrow> int" where
  "toordinal dt = (case dt of (y, m, d) \<Rightarrow> days_before_year y + days_before_month y m + d)"

text \<open>\<open>to_dt(n) = date(n//10000, (n//100)%100, n%100)\<close>; \<open>date\<close> raises \<open>ValueError\<close> unless the
  year is in 1..9999 and month and day exist.\<close>

definition to_dt :: "int \<Rightarrow> error + (int \<times> int \<times> int)" where
  "to_dt n =
     (let y = n div 10000; m = (n div 100) mod 100; d = n mod 100
      in if 1 \<le> y \<and> y \<le> 9999 \<and> 1 \<le> m \<and> m \<le> 12 \<and> 1 \<le> d \<and> d \<le> days_in_month y m
         then Inr (y, m, d) else Inl ValueError)"

subsection \<open>\<open>App.return_car\<close>\<close>

text \<open>
  The statements of \<open>return_car\<close> from line 384 on. \<open>car\<close> is a local variable of the
  function, because line 391 assigns it; \<open>car_var\<close> is its binding when control reaches
  line 384, \<open>None\<close> when it is unbound. Reading an unbound local raises. \<open>now\<close> is the
  clock reading during the call.
\<close>

definition return_car_tail ::
  "int \<Rightarrow> app \<Rightarrow> int \<Rightarrow> contract \<Rightarrow> int \<Rightarrow> car option \<Rightarrow> (error + outcome) \<times> app" where
  "return_car_tail now a rid r ret car_var =
     (case car_var of
        None \<Rightarrow> (Inl UnboundLocalError, a)
      | Some c \<Rightarrow>
     (let new_status = (if ca_status c = 1 then 0 else ca_status c) in
      case Cars_pack 1 (ca_car_id c) (ca_license c) (ca_brand c) (ca_model c) (ca_year c)
             (ca_rate_cents c) (ca_odometer_km c) new_status now of
        Inl e \<Rightarrow> (Inl e, a)
      | Inr p1 \<Rightarrow>
     (case update_record now (cars a) (ca_car_id c) p1 of
        (Inl e, ct) \<Rightarrow> (Inl e, a\<lparr>cars := ct\<rparr>)
      | (Inr u, ct) \<Rightarrow>
     (let a1 = a\<lparr>cars := ct\<rparr> in
      case read_record (cars a1) (co_car_id r) of
        Inl e \<Rightarrow> (Inl e, a1)
      | Inr None \<Rightarrow> (Inl TypeError, a1)
      | Inr (Some raw2) \<Rightarrow>
     (case Cars_unpack raw2 of
        Inl e \<Rightarrow> (Inl e, a1)
      | Inr c2 \<Rightarrow>
     (case to_dt ret of
        Inl e \<Rightarrow> (Inl e, a1)
      | Inr d1 \<Rightarrow>
     (case to_dt (co_rent_ymd r) of
        Inl e \<Rightarrow> (Inl e, a1)
      | Inr d0 \<Rightarrow>
     (let days0 = toordinal d1 - toordinal d0;
          days = (if days0 = 0 then 1 else days0);
          tot = days * ca_rate_cents c2
      in
      case Contracts_pack 1 (co_rent_id r) (co_cus_id r) (co_car_id r) (co_rent_ymd r) ret tot 1 of
        Inl e \<Rightarrow> (Inl e, a1)
      | Inr p2 \<Rightarrow>
     (case update_record now (contracts a1) rid p2 of
        (Inl e, kt) \<Rightarrow> (Inl e, a1\<lparr>contracts := kt\<rparr>)
      | (Inr u2, kt) \<Rightarrow>
     (let a2 = a1\<lparr>contracts := kt\<rparr> in
      case Cars_pack 1 (ca_car_id c2) (ca_license c2) (ca_brand c2) (ca_model c2) (ca_year c2)
             (ca_rate_cents c2) (ca_odometer_km c2) 0 now of
        Inl e \<Rightarrow> (Inl e, a2)
      | Inr p3 \<Rightarrow>
     (case update_record now (cars a2) (ca_car_id c2) p3 of
        (Inl e, ct2) \<Rightarrow> (Inl e, a2\<lparr>cars := ct2\<rparr>)
      | (Inr u3, ct2) \<Rightarrow> (Inr (MsgClosed tot days), a2\<lparr>cars := ct2\<rparr>))))))))))))"

text \<open>
  \<open>return_car\<close> from its first line. \<open>rid_in\<close> and \<open>ret_in\<close> are the results of
  \<open>int(input(...))\<close> and \<open>ymd_to_int(input(...).strip())\<close>: \<open>None\<close> when the conversion
  raised. No statement before line 384 assigns \<open>car\<close>.
\<close>

definition return_car :: "int \<Rightarrow> app \<Rightarrow> int option \<Rightarrow> int option \<Rightarrow> (error + outcome) \<times> app" where
  "return_car now a rid_in ret_in =
     (case rid_in of
        None \<Rightarrow> (Inr MsgBadInput, a)
      | Some rid \<Rightarrow>
     (case ret_in of
        None \<Rightarrow> (Inr MsgBadInput, a)
      | Some ret \<Rightarrow>
     (case read_record (contracts a) rid of
        Inl e \<Rightarrow> (Inl e, a)
      | Inr None \<Rightarrow> (Inr MsgNoContract, a)
      | Inr (Some raw) \<Rightarrow>
          if raw = [] then (Inr MsgNoContract, a)
          else (case Contracts_unpack raw of
                  Inl e \<Rightarrow> (Inl e, a)
                | Inr r \<Rightarrow>
                    if co_returned r = 1 then (Inr MsgAlreadyClosed, a)
                    else if ret < co_rent_ymd r then (Inr MsgBadDate, a)
                    else return_car_tail now a rid r ret None))))"

section \<open>Predicates and layouts used in the statements\<close>

text \<open>The file holds the whole index region the header announces.\<close>

definition index_present :: "bintable \<Rightarrow> bool" where
  "index_present t \<longleftrightarrow>
     0 \<le> index_slots (hdr t) \<and> records_region_ofs t \<le> int (length (fbytes t))"

text \<open>Two tables whose index slots read the same.\<close>

definition same_index :: "bintable \<Rightarrow> bintable \<Rightarrow> bool" where
  "same_index t t' \<longleftrightarrow>
     index_slots (hdr t') = index_slots (hdr t) \<and>
     (\<forall>j. 0 \<le> j \<and> j < index_slots (hdr t) \<longrightarrow> read_slot t' j = read_slot t j)"

text \<open>The key field of slot \<open>j\<close>, and whether it denotes a live entry.\<close>

definition key_at :: "bintable \<Rightarrow> int \<Rightarrow> int" where
  "key_at t j = (case read_slot t j of Inl e \<Rightarrow> 0 | Inr sl \<Rightarrow> key sl)"

definition live_key :: "int \<Rightarrow> bool" where
  "live_key k \<longleftrightarrow> k \<noteq> 0 \<and> k \<noteq> TOMBSTONE_KEY"

text \<open>No two index slots hold the same live key.\<close>

definition unique_live_keys :: "bintable \<Rightarrow> bool" where
  "unique_live_keys t \<longleftrightarrow>
     (\<forall>j1 \<in> set (range_py (index_slots (hdr t))). \<forall>j2 \<in> set (range_py (index_slots (hdr t))).
        live_key (key_at t j1) \<and> key_at t j1 = key_at t j2 \<longrightarrow> j1 = j2)"

text \<open>Every live key is reached by its probe: no slot from its hash slot up to its own
  slot is empty.\<close>

definition probe_reaches :: "bintable \<Rightarrow> bool" where
  "probe_reaches t \<longleftrightarrow>
     (\<forall>j \<in> set (range_py (index_slots (hdr t))).
        live_key (key_at t j) \<longrightarrow>
        (\<forall>i \<in> set (range_py ((j - key_at t j) mod index_slots (hdr t))).
           key_at t ((key_at t j + i) mod index_slots (hdr t)) \<noteq> 0))"

text \<open>The tables reached from a freshly created one by successful calls of
  \<open>add_record\<close> and \<open>delete_record\<close>.\<close>

inductive reachable :: "bintable \<Rightarrow> bool" where
  fresh: "open_new now c = Inr t \<Longrightarrow> reachable t"
| added: "reachable t \<Longrightarrow> add_record now t k packed = (Inr i, t') \<Longrightarrow> reachable t'"
| deleted: "reachable t \<Longrightarrow> delete_record now t k = (Inr u, t') \<Longrightarrow> reachable t'"

text \<open>
  A table file written out from its parts: the 128 header bytes on disk, the index
  slots and the records. Every table reached from a fresh one has this shape; it is
  used to run the operations on concrete tables.
\<close>

definition slot_bytes :: "index_slot \<Rightarrow> bytes" where
  "slot_bytes sl = le_bytes 4 (key sl) @ le_bytes 4 (rec_index sl) @ replicate 8 0"

definition header_bytes :: "header \<Rightarrow> bytes" where
  "header_bytes hr =
     take 4 (magic hr) @ replicate (4 - length (magic hr)) 0 @ le_bytes 1 (version hr)
     @ le_bytes 1 (endian hr) @ le_bytes 2 (record_size hr) @ le_bytes 4 (created_at hr)
     @ le_bytes 4 (updated_at hr) @ le_bytes 4 (next_id hr) @ le_bytes 4 (active_count hr)
     @ le_bytes 4 (deleted_count hr) @ le_bytes 4 (free_head hr mod 4294967296)
     @ le_bytes 4 (index_slots hr) @ replicate 92 0"

definition header_in_range :: "header \<Rightarrow> bool" where
  "header_in_range hr \<longleftrightarrow>
     0 \<le> version hr \<and> version hr < 256 \<and> 0 \<le> endian hr \<and> endian hr < 256
     \<and> 0 \<le> record_size hr \<and> record_size hr < 65536
     \<and> 0 \<le> created_at hr \<and> created_at hr < 4294967296
     \<and> 0 \<le> updated_at hr \<and> updated_at hr < 4294967296
     \<and> 0 \<le> next_id hr \<and> next_id hr < 4294967296
     \<and> 0 \<le> active_count hr \<and> active_count hr < 4294967296
     \<and> 0 \<le> deleted_count hr \<and> deleted_count hr < 4294967296
     \<and> - 2147483648 \<le> free_head hr \<and> free_head hr < 2147483648
     \<and> 0 \<le> index_slots hr \<and> index_slots hr < 4294967296"

definition layout :: "table_cfg \<Rightarrow> header \<Rightarrow> bytes \<Rightarrow> index_slot list \<Rightarrow> bytes list \<Rightarrow> bintable" where
  "layout c hr disk sls recs =
     \<lparr> tmagic = tmagic c, rsize = rsize c, slots = slots c, pad_off = pad_off c,
       hdr = hr, fbytes = disk @ concat (map slot_bytes sls) @ concat recs \<rparr>"

definition slot_in_range :: "index_slot \<Rightarrow> bool" where
  "slot_in_range sl \<longleftrightarrow>
     0 \<le> key sl \<and> key sl < 4294967296 \<and> 0 \<le> rec_index sl \<and> rec_index sl < 4294967296"

definition layout_ok :: "table_cfg \<Rightarrow> header \<Rightarrow> bytes \<Rightarrow> index_slot list \<Rightarrow> bytes list \<Rightarrow> bool" where
  "layout_ok c hr disk sls recs \<longleftrightarrow>
     length disk = 128 \<and> index_slots hr = int (length sls) \<and> list_all slot_in_range sls
     \<and> list_all (\<lambda>r. length r = rsize c) recs \<and> 0 < rsize c \<and> pad_off c + 4 \<le> rsize c"

section \<open>A driver for sequences of calls\<close>

text \<open>
  The menu loop issues one call after another on the same table object and catches the
  exception of a call that raises. \<open>run_calls\<close> does the same for a list of calls
  and returns every call's result and the table at the end.
\<close>

datatype call = Add int bytes | Delete int

fun do_call :: "int \<Rightarrow> bintable \<Rightarrow> call \<Rightarrow> (error + int option) \<times> bintable" where
  "do_call now t (Add k p) =
     (case add_record now t k p of (Inl e, t') \<Rightarrow> (Inl e, t') | (Inr i, t') \<Rightarrow> (Inr (Some i), t'))"
| "do_call now t (Delete k) =
     (case delete_record now t k of (Inl e, t') \<Rightarrow> (Inl e, t') | (Inr u, t') \<Rightarrow> (Inr None, t'))"

fun run_calls :: "int \<Rightarrow> bintable \<Rightarrow> call list \<Rightarrow> (error + int option) list \<times> bintable" where
  "run_calls now t [] = ([], t)"
| "run_calls now t (c # cs) =
     (case do_call now t c of (r, t') \<Rightarrow>
        (case run_calls now t' cs of (rs, t'') \<Rightarrow> (r # rs, t'')))"

text \<open>The table \<open>open()\<close> creates for a configuration at time \<open>now\<close>, as a layout, and a
  record of \<open>n\<close> bytes whose flag byte is 1 and whose other bytes are zero.\<close>

definition fresh_table :: "int \<Rightarrow> table_cfg \<Rightarrow> bintable" where
  "fresh_table now c =
     layout c (Header_new (tmagic c) (int (rsize c)) (slots c) now)
       (header_bytes (Header_new (tmagic c) (int (rsize c)) (slots c) now))
       (replicate (nat (slots c)) \<lparr>key = 0, rec_index = 0\<rparr>) []"

definition blank_record :: "nat \<Rightarrow> bytes" where
  "blank_record n = 1 # replicate (n - 1) 0"

text \<open>A Cars table with four index slots and a tombstone: key 1 added, key 5 added
  behind it (both hash to slot 1), key 1 deleted.\<close>

definition tombstoned_table :: bintable where
  "tombstoned_table =
     snd (run_calls 7 (fresh_table 7 (Cars 4))
            [Add 1 (blank_record 128), Add 5 (blank_record 128), Delete 1])"

text \<open>The values a record field can hold: an unsigned integer of the field's width, and a
  text without lone surrogates whose encoding fits the field's width and does not end
  in a zero byte.\<close>

definition in_B :: "int \<Rightarrow> bool" where "in_B v \<longleftrightarrow> 0 \<le> v \<and> v < 256"
definition in_H :: "int \<Rightarrow> bool" where "in_H v \<longleftrightarrow> 0 \<le> v \<and> v < 65536"
definition in_I :: "int \<Rightarrow> bool" where "in_I v \<longleftrightarrow> 0 \<le> v \<and> v < 4294967296"

definition valid_str :: "str \<Rightarrow> bool" where
  "valid_str s \<longleftrightarrow> (\<forall>c \<in> set s. c < 1114112 \<and> \<not> (55296 \<le> c \<and> c \<le> 57343))"

definition text_ok :: "nat \<Rightarrow> str \<Rightarrow> bool" where
  "text_ok n s \<longleftrightarrow>
     valid_str s \<and> length (utf8_encode s) \<le> n
     \<and> (utf8_encode s = [] \<or> last (utf8_encode s) \<noteq> 0)"

text \<open>The slots an insert probe for key \<open>k\<close> visits, in the order of the visit.\<close>

definition probe_chain :: "bintable \<Rightarrow> int \<Rightarrow> int list" where
  "probe_chain t k =
     map (\<lambda>i. (k mod index_slots (hdr t) + i) mod index_slots (hdr t))
       (range_py (index_slots (hdr t)))"

text \<open>
  The two insert probes part on key \<open>k\<close>: the first slot of the chain that is empty or
  holds \<open>k\<close> is an empty one, and either \<open>k\<close> is 0 (the application takes the empty slot
  for a slot that holds key 0) or a tombstone stands in the chain before that slot (the
  application returns the first tombstone, the seeding tool the empty slot).
\<close>

definition probes_part :: "bintable \<Rightarrow> int \<Rightarrow> bool" where
  "probes_part t k \<longleftrightarrow>
     (case dropWhile (\<lambda>j. key_at t j \<noteq> 0 \<and> key_at t j \<noteq> k) (probe_chain t k) of
        [] \<Rightarrow> False
      | s # rest \<Rightarrow>
          key_at t s = 0
          \<and> (k = 0 \<or> list_ex (\<lambda>j. key_at t j = TOMBSTONE_KEY)
                         (takeWhile (\<lambda>j. key_at t j \<noteq> 0 \<and> key_at t j \<noteq> k) (probe_chain t k))))"






text \<open>A Cars file of four empty index slots whose header was written big-endian, with
  the endian flag set to 1: record size 128, timestamps 7, next id 1, free-list head
  \<open>-1\<close>.\<close>

definition be_cars_file :: bytes where
  "be_cars_file =
     [67, 65, 82, 83, 1, 1, 0, 128, 0, 0, 0, 7, 0, 0, 0, 7, 0, 0, 0, 1, 0, 0, 0, 0,
      0, 0, 0, 0, 255, 255, 255, 255, 0, 0, 0, 4]
     @ replicate 92 0 @ replicate 64 0"

section \<open>Files and the struct codec: basic facts\<close>

lemma length_write_at:
  "length (write_at fb ofs d) = (if d = [] then length fb else max (length fb) (ofs + length d))"
  by (auto simp: write_at_def)

lemma length_write_at_ge: "length fb \<le> length (write_at fb ofs d)"
  by (simp add: length_write_at)

lemma read_below_write_at:
  assumes "o' + n \<le> ofs" "o' + n \<le> length fb"
  shows "take n (drop o' (write_at fb ofs d)) = take n (drop o' fb)"
  using assms by (auto simp: write_at_def drop_take min_def)

lemma read_back_write_at:
  "take (length d) (drop ofs (write_at fb ofs d)) = d"
  by (auto simp: write_at_def)

lemma read_above_write_at:
  assumes "ofs + length d \<le> o'"
  shows "drop o' (write_at fb ofs d) = drop o' fb"
proof -
  have "min (length fb) ofs + (ofs - length fb) = ofs" by arith
  then show ?thesis using assms by (auto simp: write_at_def)
qed

lemma length_le_bytes [simp]: "length (le_bytes n v) = n"
  by (induction n arbitrary: v) auto

lemma le_int_le_bytes:
  "0 \<le> v \<Longrightarrow> v < 256 ^ n \<Longrightarrow> le_int (le_bytes n v) = v"
proof (induction n arbitrary: v)
  case 0
  then show ?case by simp
next
  case (Suc n)
  have "v div 256 < 256 ^ n" using Suc.prems by (simp add: div_less_iff_less_mult mult.commute)
  moreover have "0 \<le> v div 256" using Suc.prems by simp
  ultimately have "le_int (le_bytes n (v div 256)) = v div 256" by (rule Suc.IH[rotated])
  moreover have "uint (word_of_int (v mod 256) :: byte) = v mod 256"
    by (simp add: uint_word_of_int take_bit_eq_mod)
  ultimately show ?case by simp
qed

lemma le_int_bounds: "0 \<le> le_int bs \<and> le_int bs < 256 ^ length bs"
proof (induction bs)
  case Nil
  then show ?case by simp
next
  case (Cons b bs)
  have "uint b < 256" using uint_bounded[of b] by simp
  moreover have "0 \<le> uint b" by simp
  moreover have "le_int bs + 1 \<le> 256 ^ length bs" using Cons by simp
  then have "256 * (le_int bs + 1) \<le> 256 * 256 ^ length bs" by simp
  ultimately show ?case using Cons by (simp add: algebra_simps)
qed

lemma pack_fields_Inr:
  "pack_fields ps = Inr b \<Longrightarrow> \<exists>bs. ps = map Inr bs \<and> b = concat bs"
proof (induction ps arbitrary: b rule: pack_fields.induct)
  case 1
  then show ?case by simp
next
  case (2 e ps b)
  then show ?case by simp
next
  case (3 x ps b)
  then obtain bs' where p: "pack_fields ps = Inr bs'" and b: "b = x @ bs'"
    by (auto split: sum.splits)
  from "3.IH"[OF p] obtain bs where "ps = map Inr bs" "bs' = concat bs" by (elim exE conjE)
  then have "Inr x # ps = map Inr (x # bs) \<and> b = concat (x # bs)" using b by simp
  then show ?case by (rule exI)
qed

lemma pack_uint_Inr:
  "pack_uint n v = Inr x \<Longrightarrow> x = le_bytes n v \<and> 0 \<le> v \<and> v < 256 ^ n"
  by (auto simp: pack_uint_def split: if_splits)

lemma pack_i_Inr:
  "pack_i v = Inr x \<Longrightarrow> x = le_bytes 4 (v mod 4294967296) \<and> - 2147483648 \<le> v \<and> v < 2147483648"
  by (auto simp: pack_i_def split: if_splits)

lemma length_pack_i: "pack_i v = Inr x \<Longrightarrow> length x = 4"
  by (auto dest: pack_i_Inr)

lemma unpack_i_pack_i: 
  assumes "pack_i v = Inr x" shows "unpack_i x = v"
proof -
  from pack_i_Inr[OF assms] have x: "x = le_bytes 4 (v mod 4294967296)"
    and r: "- 2147483648 \<le> v" "v < 2147483648" by auto
  have "le_int x = v mod 4294967296" unfolding x
    by (rule le_int_le_bytes) simp_all
  moreover have "v mod 4294967296 = (if v < 0 then v + 4294967296 else v)"
  proof (cases "v < 0")
    case True
    have "v mod 4294967296 = (v + 4294967296) mod 4294967296" by simp
    also have "\<dots> = v + 4294967296" using r True by (intro mod_pos_pos_trivial) simp_all
    finally show ?thesis using True by simp
  next
    case False
    then show ?thesis using r by simp
  qed
  ultimately show ?thesis using r by (auto simp: unpack_i_def Let_def)
qed

lemma length_Header_pack:
  assumes "Header_pack hr = Inr b" shows "length b = 128"
proof -
  from pack_fields_Inr[OF assms[unfolded Header_pack_def]]
  obtain bs where m: "[pack_s 4 (magic hr), pack_B (version hr), pack_B (endian hr),
                  pack_H (record_size hr), pack_I (created_at hr), pack_I (updated_at hr),
                  pack_I (next_id hr), pack_I (active_count hr), pack_I (deleted_count hr),
                  pack_i (free_head hr), pack_I (index_slots hr), pack_x 92] = map Inr bs"
    and b: "b = concat bs" by (elim exE conjE)
  from m obtain b0 b1 b2 b3 b4 b5 b6 b7 b8 b9 b10 b11 where
    bs: "bs = [b0,b1,b2,b3,b4,b5,b6,b7,b8,b9,b10,b11]"
    by (auto simp: map_eq_Cons_conv)
  from m bs have "length b0 = 4" "length b1 = 1" "length b2 = 1" "length b3 = 2"
    "length b4 = 4" "length b5 = 4" "length b6 = 4" "length b7 = 4" "length b8 = 4"
    "length b9 = 4" "length b10 = 4" "length b11 = 92"
    by (auto simp: pack_s_def pack_B_def pack_H_def pack_I_def pack_x_def
             dest!: pack_uint_Inr length_pack_i)
  then show ?thesis using b bs by simp
qed

lemma IndexSlot_pack_Inr:
  assumes "IndexSlot_pack sl = Inr b"
  shows "b = le_bytes 4 (key sl) @ le_bytes 4 (rec_index sl) @ replicate 8 0
         \<and> 0 \<le> key sl \<and> key sl < 4294967296 \<and> 0 \<le> rec_index sl \<and> rec_index sl < 4294967296"
  using assms
  by (auto simp: IndexSlot_pack_def pack_I_def pack_x_def pack_uint_def split: if_splits)

lemma length_IndexSlot_pack: "IndexSlot_pack sl = Inr b \<Longrightarrow> length b = 16"
  by (auto dest!: IndexSlot_pack_Inr)

lemma IndexSlot_unpack_pack:
  assumes "IndexSlot_pack sl = Inr b" shows "IndexSlot_unpack b = Inr sl"
proof -
  from IndexSlot_pack_Inr[OF assms] have
    b: "b = le_bytes 4 (key sl) @ le_bytes 4 (rec_index sl) @ replicate 8 0"
    and r: "0 \<le> key sl" "key sl < 256 ^ 4" "0 \<le> rec_index sl" "rec_index sl < 256 ^ 4"
    by auto
  have "slice b 0 4 = le_bytes 4 (key sl)" "slice b 4 4 = le_bytes 4 (rec_index sl)"
    by (simp_all add: b slice_def)
  then show ?thesis using le_int_le_bytes[OF r(1,2)] le_int_le_bytes[OF r(3,4)]
    by (simp add: IndexSlot_unpack_def b)
qed

lemma IndexSlot_unpack_range:
  "IndexSlot_unpack b = Inr sl \<Longrightarrow> 0 \<le> key sl \<and> key sl < 4294967296 \<and> 0 \<le> rec_index sl \<and> rec_index sl < 4294967296"
  using le_int_bounds[of "slice b 0 4"] le_int_bounds[of "slice b 4 4"]
  by (auto simp: IndexSlot_unpack_def slice_def split: if_splits)

section \<open>Writes and the index region\<close>

lemma same_index_refl: "same_index t t"
  by (simp add: same_index_def)

lemma same_index_trans: "same_index t t' \<Longrightarrow> same_index t' t'' \<Longrightarrow> same_index t t''"
  by (simp add: same_index_def)

lemma read_slot_alt:
  "0 \<le> j \<Longrightarrow> read_slot t j = IndexSlot_unpack (take 16 (drop (nat (128 + j * 16)) (fbytes t)))"
  by (simp add: read_slot_def file_read_def index_ofs_def HEADER_SIZE_def INDEX_SLOT_SIZE_def)

lemma read_slot_fbytes_below:
  assumes "index_present t" "0 \<le> j" "j < index_slots (hdr t)"
    and "records_region_ofs t \<le> int ofs"
  shows "read_slot (t\<lparr>fbytes := write_at (fbytes t) ofs d\<rparr>) j = read_slot t j"
proof -
  have "nat (128 + j * 16) + 16 \<le> ofs" "nat (128 + j * 16) + 16 \<le> length (fbytes t)"
    using assms by (auto simp: index_present_def records_region_ofs_def HEADER_SIZE_def INDEX_SLOT_SIZE_def)
  then show ?thesis using assms(2) by (simp add: read_slot_alt read_below_write_at)
qed

lemma read_slot_fbytes_above:
  assumes "0 \<le> j" "int ofs + int (length d) \<le> 128 + j * 16"
  shows "read_slot (t\<lparr>fbytes := write_at (fbytes t) ofs d\<rparr>) j = read_slot t j"
proof -
  have "ofs + length d \<le> nat (128 + j * 16)" using assms by linarith
  then show ?thesis using assms(1) by (simp add: read_slot_alt read_above_write_at)
qed

lemma index_present_write:
  assumes "index_present t"
  shows "index_present (t\<lparr>fbytes := write_at (fbytes t) ofs d\<rparr>)"
  using assms length_write_at_ge[of "fbytes t" ofs d]
  by (simp add: index_present_def records_region_ofs_def)

lemma write_raw_frame:
  assumes "index_present t" "0 \<le> ri" "write_raw t ri d = Inr t'"
  shows "same_index t t' \<and> index_present t' \<and> hdr t' = hdr t
         \<and> rsize t' = rsize t \<and> pad_off t' = pad_off t"
proof -
  have o: "records_region_ofs t \<le> record_ofs t ri" using assms(2) by (simp add: record_ofs_def)
  then have nn: "0 \<le> record_ofs t ri" using assms(1)
    by (simp add: index_present_def records_region_ofs_def HEADER_SIZE_def INDEX_SLOT_SIZE_def)
  from assms(3) have t': "t' = t\<lparr>fbytes := write_at (fbytes t) (nat (record_ofs t ri)) d\<rparr>"
    by (auto simp: write_raw_def file_write_def split: if_splits)
  show ?thesis unfolding t' using read_slot_fbytes_below[OF assms(1)] o nn index_present_write[OF assms(1)]
    by (simp add: same_index_def)
qed

lemma write_next_free_frame:
  assumes "index_present t" "0 \<le> ri" "write_next_free t ri v = Inr t'"
  shows "same_index t t' \<and> index_present t' \<and> hdr t' = hdr t
         \<and> rsize t' = rsize t \<and> pad_off t' = pad_off t
         \<and> (\<exists>b. pack_i v = Inr b \<and>
                take 4 (drop (nat (record_ofs t ri + int (pad_off t))) (fbytes t')) = b)"
proof -
  have o: "records_region_ofs t \<le> record_ofs t ri + int (pad_off t)"
    using assms(2) by (simp add: record_ofs_def)
  then have nn: "0 \<le> record_ofs t ri + int (pad_off t)" using assms(1)
    by (simp add: index_present_def records_region_ofs_def HEADER_SIZE_def INDEX_SLOT_SIZE_def)
  from assms(3) obtain b where b: "pack_i v = Inr b"
    and t': "t' = t\<lparr>fbytes := write_at (fbytes t) (nat (record_ofs t ri + int (pad_off t))) b\<rparr>"
    by (auto simp: write_next_free_def file_write_def split: if_splits sum.splits)
  have "take 4 (drop (nat (record_ofs t ri + int (pad_off t))) (fbytes t')) = b"
    unfolding t' using read_back_write_at[of b _ "fbytes t"] length_pack_i[OF b] by simp
  then show ?thesis unfolding t'
    using read_slot_fbytes_below[OF assms(1)] o nn index_present_write[OF assms(1)] b
    by (simp add: same_index_def)
qed

lemma write_header_frame:
  assumes "index_present t" "write_header now t = (r, t')"
  shows "same_index t t' \<and> index_present t' \<and> hdr t' = (hdr t)\<lparr>updated_at := now\<rparr>
         \<and> rsize t' = rsize t \<and> pad_off t' = pad_off t
         \<and> (\<forall>p. 128 \<le> p \<longrightarrow> drop p (fbytes t') = drop p (fbytes t))"
proof (cases "Header_pack ((hdr t)\<lparr>updated_at := now\<rparr>)")
  case (Inl e)
  then have "t' = t\<lparr>hdr := (hdr t)\<lparr>updated_at := now\<rparr>\<rparr>"
    using assms(2) by (simp add: write_header_def Let_def)
  then show ?thesis using assms(1)
    by (simp add: same_index_def index_present_def records_region_ofs_def read_slot_def)
next
  case (Inr b)
  then have t': "t' = t\<lparr>hdr := (hdr t)\<lparr>updated_at := now\<rparr>, fbytes := write_at (fbytes t) 0 b\<rparr>"
    using assms(2) by (simp add: write_header_def Let_def)
  have lb: "length b = 128" by (rule length_Header_pack[OF Inr])
  have rs: "read_slot t' j = read_slot t j" if "0 \<le> j" for j
    using read_slot_fbytes_above[of j 0 b t] that lb
    by (simp add: t' read_slot_def)
  have "drop p (write_at (fbytes t) 0 b) = drop p (fbytes t)" if "128 \<le> p" for p
    by (rule read_above_write_at) (use lb that in simp)
  then show ?thesis using assms(1) rs length_write_at_ge[of "fbytes t" 0 b]
    by (simp add: t' same_index_def index_present_def records_region_ofs_def)
qed

lemma write_slot_effect:
  assumes "index_present t" "0 \<le> j" "j < index_slots (hdr t)" "write_slot t j s = Inr t'"
  shows "read_slot t' j = Inr s
         \<and> (\<forall>j'. 0 \<le> j' \<and> j' < index_slots (hdr t) \<and> j' \<noteq> j \<longrightarrow> read_slot t' j' = read_slot t j')
         \<and> index_present t' \<and> hdr t' = hdr t \<and> rsize t' = rsize t \<and> pad_off t' = pad_off t
         \<and> (\<forall>p. nat (records_region_ofs t) \<le> p \<longrightarrow> drop p (fbytes t') = drop p (fbytes t))"
proof -
  from assms(4) obtain b where b: "IndexSlot_pack s = Inr b"
    and t': "t' = t\<lparr>fbytes := write_at (fbytes t) (nat (128 + j * 16)) b\<rparr>"
    by (auto simp: write_slot_def file_write_def index_ofs_def HEADER_SIZE_def INDEX_SLOT_SIZE_def
             split: if_splits sum.splits)
  have lb: "length b = 16" by (rule length_IndexSlot_pack[OF b])
  have "take 16 (drop (nat (128 + j * 16)) (fbytes t')) = b"
    unfolding t' using read_back_write_at[of b _ "fbytes t"] lb by simp
  then have 1: "read_slot t' j = Inr s"
    using assms(2) IndexSlot_unpack_pack[OF b] by (simp add: read_slot_alt)
  have 2: "read_slot t' j' = read_slot t j'"
    if "0 \<le> j'" "j' < index_slots (hdr t)" "j' \<noteq> j" for j'
  proof (cases "j' < j")
    case True
    have "nat (128 + j' * 16) + 16 \<le> nat (128 + j * 16)"
      "nat (128 + j' * 16) + 16 \<le> length (fbytes t)"
      using True that assms(1-3)
      by (auto simp: index_present_def records_region_ofs_def HEADER_SIZE_def INDEX_SLOT_SIZE_def)
    then show ?thesis using that(1) by (simp add: t' read_slot_alt read_below_write_at)
  next
    case False
    then have "int (nat (128 + j * 16)) + int (length b) \<le> 128 + j' * 16"
      using that assms(2) lb by simp
    from read_slot_fbytes_above[OF that(1) this] show ?thesis by (simp add: t')
  qed
  have 3: "drop p (fbytes t') = drop p (fbytes t)" if "nat (records_region_ofs t) \<le> p" for p
    unfolding t' using that assms(2,3) lb
    by (auto intro!: read_above_write_at simp: records_region_ofs_def HEADER_SIZE_def INDEX_SLOT_SIZE_def)
  show ?thesis using 1 2 3 index_present_write[OF assms(1)] by (simp add: t')
qed

section \<open>Running the operations on a laid-out table\<close>

lemma write_at_mid:
  assumes "po + length b \<le> length ys"
  shows "write_at (xs @ ys @ zs) (length xs + po) b = xs @ write_at ys po b @ zs"
  using assms by (cases "b = []") (auto simp: write_at_def)

lemma read_mid:
  assumes "po + n \<le> length ys"
  shows "take n (drop (length xs + po) (xs @ ys @ zs)) = take n (drop po ys)"
  using assms by auto

lemma length_concat_uniform:
  "list_all (\<lambda>b. length b = m) bs \<Longrightarrow> length (concat bs) = length bs * m"
  by (induction bs) auto

lemma list_all_take: "list_all P bs \<Longrightarrow> list_all P (take j bs)"
  by (auto simp: list_all_iff dest: in_set_takeD)

lemma concat_split:
  "j < length bs \<Longrightarrow> concat bs = concat (take j bs) @ bs ! j @ concat (drop (Suc j) bs)"
  by (metis append_Cons append_Nil concat.simps(2) concat_append id_take_nth_drop)

lemma concat_update_split:
  "j < length bs \<Longrightarrow> concat (bs[j := x]) = concat (take j bs) @ x @ concat (drop (Suc j) bs)"
  by (simp add: upd_conv_take_nth_drop)

lemma block_read:
  assumes "list_all (\<lambda>b. length b = m) bs" "j < length bs" "po + n \<le> m"
  shows "take n (drop (length pre + j * m + po) (pre @ concat bs @ rest)) = take n (drop po (bs ! j))"
proof -
  have l: "length (concat (take j bs)) = j * m"
    using length_concat_uniform[OF list_all_take[OF assms(1)], of j] assms(2) by simp
  have lj: "length (bs ! j) = m" using assms(1,2) by (simp add: list_all_length)
  have "pre @ concat bs @ rest = (pre @ concat (take j bs)) @ bs ! j @ (concat (drop (Suc j) bs) @ rest)"
    using concat_split[OF assms(2)] by simp
  moreover have "length (pre @ concat (take j bs)) + po = length pre + j * m + po" using l by simp
  ultimately show ?thesis using read_mid[of po n "bs ! j" "pre @ concat (take j bs)"] assms(3) lj
    by metis
qed

lemma block_write:
  assumes "list_all (\<lambda>b. length b = m) bs" "j < length bs" "po + length d \<le> m"
  shows "write_at (pre @ concat bs @ rest) (length pre + j * m + po) d
         = pre @ concat (bs[j := write_at (bs ! j) po d]) @ rest"
proof -
  have l: "length (concat (take j bs)) = j * m"
    using length_concat_uniform[OF list_all_take[OF assms(1)], of j] assms(2) by simp
  have lj: "length (bs ! j) = m" using assms(1,2) by (simp add: list_all_length)
  have e: "pre @ concat bs @ rest = (pre @ concat (take j bs)) @ bs ! j @ (concat (drop (Suc j) bs) @ rest)"
    using concat_split[OF assms(2)] by simp
  have "length (pre @ concat (take j bs)) + po = length pre + j * m + po" using l by simp
  then have "write_at (pre @ concat bs @ rest) (length pre + j * m + po) d
      = (pre @ concat (take j bs)) @ write_at (bs ! j) po d @ (concat (drop (Suc j) bs) @ rest)"
    using write_at_mid[of po d "bs ! j" "pre @ concat (take j bs)"] assms(3) lj e by metis
  then show ?thesis using concat_update_split[OF assms(2)] by simp
qed

lemma write_at_whole: "length d = length ys \<Longrightarrow> write_at ys 0 d = d"
  by (auto simp: write_at_def)

lemma write_at_end: "write_at xs (length xs) d = xs @ d"
  by (auto simp: write_at_def)

lemma length_slot_bytes [simp]: "length (slot_bytes sl) = 16"
  by (simp add: slot_bytes_def)

lemma IndexSlot_pack_slot_bytes:
  "slot_in_range sl \<Longrightarrow> IndexSlot_pack sl = Inr (slot_bytes sl)"
  by (simp add: slot_in_range_def IndexSlot_pack_def pack_I_def pack_uint_def pack_x_def slot_bytes_def)

lemma IndexSlot_unpack_slot_bytes:
  "slot_in_range sl \<Longrightarrow> IndexSlot_unpack (slot_bytes sl) = Inr sl"
  using IndexSlot_unpack_pack[OF IndexSlot_pack_slot_bytes] by simp

lemma Header_pack_header_bytes:
  "header_in_range hr \<Longrightarrow> Header_pack hr = Inr (header_bytes hr)"
  by (simp add: header_in_range_def Header_pack_def pack_s_def pack_B_def pack_H_def pack_I_def
        pack_i_def pack_uint_def pack_x_def header_bytes_def)

lemma length_header_bytes [simp]: "length (header_bytes hr) = 128"
  by (simp add: header_bytes_def)

lemma layout_sel [simp]:
  "hdr (layout c hr disk sls recs) = hr"
  "rsize (layout c hr disk sls recs) = rsize c"
  "pad_off (layout c hr disk sls recs) = pad_off c"
  "tmagic (layout c hr disk sls recs) = tmagic c"
  "slots (layout c hr disk sls recs) = slots c"
  by (simp_all add: layout_def)

lemma layout_upd_hdr [simp]:
  "(layout c hr disk sls recs)\<lparr>hdr := hr'\<rparr> = layout c hr' disk sls recs"
  by (simp add: layout_def)

lemma slots_uniform: "list_all (\<lambda>b. length b = 16) (map slot_bytes sls)"
  by (simp add: list_all_iff)

lemma sim_read_slot:
  assumes "layout_ok c hr disk sls recs" "0 \<le> j" "j < int (length sls)"
  shows "read_slot (layout c hr disk sls recs) j = Inr (sls ! nat j)"
proof -
  have d: "length disk = 128" and r: "slot_in_range (sls ! nat j)"
    using assms by (auto simp: layout_ok_def list_all_length)
  have "nat (128 + j * 16) = length disk + nat j * 16 + 0" using assms(2) d by simp
  then have "take 16 (drop (nat (128 + j * 16)) (disk @ concat (map slot_bytes sls) @ concat recs))
      = take 16 (drop 0 (map slot_bytes sls ! nat j))"
    using block_read[OF slots_uniform, of "nat j" sls 0 16 disk "concat recs"] assms(2,3) by simp
  then show ?thesis using assms(2,3) r
    by (simp add: read_slot_alt layout_def IndexSlot_unpack_slot_bytes)
qed

lemma sim_write_slot:
  assumes "layout_ok c hr disk sls recs" "0 \<le> j" "j < int (length sls)" "slot_in_range s"
  shows "write_slot (layout c hr disk sls recs) j s = Inr (layout c hr disk (sls[nat j := s]) recs)"
proof -
  have d: "length disk = 128" using assms by (auto simp: layout_ok_def)
  have e: "nat (128 + j * 16) = length disk + nat j * 16 + 0" using assms(2) d by simp
  have "write_at (disk @ concat (map slot_bytes sls) @ concat recs) (nat (128 + j * 16)) (slot_bytes s)
      = disk @ concat ((map slot_bytes sls)[nat j := write_at (map slot_bytes sls ! nat j) 0 (slot_bytes s)]) @ concat recs"
    unfolding e using block_write[OF slots_uniform, of "nat j" sls 0 "slot_bytes s" disk "concat recs"] assms(2,3)
    by simp
  moreover have "write_at (map slot_bytes sls ! nat j) 0 (slot_bytes s) = slot_bytes s"
    using assms(2,3) by (intro write_at_whole) simp
  ultimately show ?thesis using assms(2)
    by (simp add: write_slot_def IndexSlot_pack_slot_bytes[OF assms(4)] file_write_def index_ofs_def
          HEADER_SIZE_def INDEX_SLOT_SIZE_def layout_def map_update)
qed

lemma layout_ok_write_slot:
  assumes "layout_ok c hr disk sls recs" "slot_in_range s"
  shows "layout_ok c hr disk (sls[j := s]) recs"
  using assms by (auto simp: layout_ok_def list_all_iff dest!: set_update_subset_insert[THEN subsetD])

lemma records_region_layout:
  assumes "layout_ok c hr disk sls recs"
  shows "records_region_ofs (layout c hr disk sls recs) = 128 + int (length sls) * 16"
  using assms by (simp add: layout_ok_def records_region_ofs_def HEADER_SIZE_def INDEX_SLOT_SIZE_def)

lemma length_fbytes_layout:
  assumes "layout_ok c hr disk sls recs"
  shows "length (fbytes (layout c hr disk sls recs)) = 128 + length sls * 16 + length recs * rsize c"
  using assms length_concat_uniform[OF slots_uniform, of sls]
    length_concat_uniform[of "rsize c" recs]
  by (simp add: layout_ok_def layout_def)

lemma sim_records_count:
  assumes "layout_ok c hr disk sls recs"
  shows "records_count (layout c hr disk sls recs) = Inr (int (length recs))"
proof -
  have "int (length (fbytes (layout c hr disk sls recs))) - records_region_ofs (layout c hr disk sls recs)
        = int (length recs) * int (rsize c)"
    using length_fbytes_layout[OF assms] records_region_layout[OF assms] by simp
  moreover have "0 < rsize c" using assms by (simp add: layout_ok_def)
  ultimately show ?thesis
    by (auto simp: records_count_def Let_def mult_le_0_iff)
qed

lemma layout_regroup:
  "disk @ concat (map slot_bytes sls) @ concat recs
   = (disk @ concat (map slot_bytes sls)) @ concat recs @ []"
  by simp

lemma rec_ofs_layout:
  assumes "layout_ok c hr disk sls recs" "0 \<le> r"
  shows "nat (record_ofs (layout c hr disk sls recs) r + int po)
         = length (disk @ concat (map slot_bytes sls)) + nat r * rsize c + po"
  using assms length_concat_uniform[OF slots_uniform, of sls] records_region_layout[OF assms(1)]
  by (simp add: record_ofs_def layout_ok_def nat_add_distrib nat_mult_distrib)

lemma sim_read_raw:
  assumes "layout_ok c hr disk sls recs" "0 \<le> r" "r < int (length recs)"
  shows "read_raw (layout c hr disk sls recs) r = Inr (recs ! nat r)"
proof -
  have u: "list_all (\<lambda>b. length b = rsize c) recs" using assms(1) by (simp add: layout_ok_def)
  have nn: "0 \<le> record_ofs (layout c hr disk sls recs) r"
    using records_region_layout[OF assms(1)] assms(2) by (simp add: record_ofs_def)
  have l: "length (recs ! nat r) = rsize c" using u assms(2,3) by (simp add: list_all_length)
  have "take (rsize c) (drop (nat (record_ofs (layout c hr disk sls recs) r)) (fbytes (layout c hr disk sls recs)))
     = take (rsize c) (drop 0 (recs ! nat r))"
    using block_read[OF u, of "nat r" 0 "rsize c" "disk @ concat (map slot_bytes sls)" "[]"]
      rec_ofs_layout[OF assms(1,2), of 0] assms(2,3)
    by (simp add: layout_def)
  then show ?thesis using nn l by (simp add: read_raw_def file_read_def)
qed

lemma sim_read_link:
  assumes "layout_ok c hr disk sls recs" "0 \<le> r" "r < int (length recs)"
  shows "file_read (fbytes (layout c hr disk sls recs))
           (record_ofs (layout c hr disk sls recs) r + int (pad_off c)) 4
         = Inr (take 4 (drop (pad_off c) (recs ! nat r)))"
proof -
  have u: "list_all (\<lambda>b. length b = rsize c) recs" and p: "pad_off c + 4 \<le> rsize c"
    using assms(1) by (simp_all add: layout_ok_def)
  have nn: "0 \<le> record_ofs (layout c hr disk sls recs) r + int (pad_off c)"
    using records_region_layout[OF assms(1)] assms(2) by (simp add: record_ofs_def)
  have "take 4 (drop (nat (record_ofs (layout c hr disk sls recs) r + int (pad_off c))) (fbytes (layout c hr disk sls recs)))
     = take 4 (drop (pad_off c) (recs ! nat r))"
    using block_read[OF u, of "nat r" "pad_off c" 4 "disk @ concat (map slot_bytes sls)" "[]"]
      rec_ofs_layout[OF assms(1,2), of "pad_off c"] assms(2,3) p
    by (simp add: layout_def)
  then show ?thesis using nn by (simp add: file_read_def)
qed

lemma sim_write_raw:
  assumes "layout_ok c hr disk sls recs" "0 \<le> r" "r < int (length recs)" "length d = rsize c"
  shows "write_raw (layout c hr disk sls recs) r d = Inr (layout c hr disk sls (recs[nat r := d]))"
proof -
  have u: "list_all (\<lambda>b. length b = rsize c) recs" using assms(1) by (simp add: layout_ok_def)
  have nn: "0 \<le> record_ofs (layout c hr disk sls recs) r"
    using records_region_layout[OF assms(1)] assms(2) by (simp add: record_ofs_def)
  have l: "length (recs ! nat r) = rsize c" using u assms(2,3) by (simp add: list_all_length)
  have "write_at (fbytes (layout c hr disk sls recs)) (nat (record_ofs (layout c hr disk sls recs) r)) d
     = (disk @ concat (map slot_bytes sls)) @ concat (recs[nat r := write_at (recs ! nat r) 0 d]) @ []"
    using block_write[OF u, of "nat r" 0 d "disk @ concat (map slot_bytes sls)" "[]"]
      rec_ofs_layout[OF assms(1,2), of 0] assms(2,3,4)
    by (simp add: layout_def)
  moreover have "write_at (recs ! nat r) 0 d = d" using l assms(4) by (intro write_at_whole) simp
  ultimately show ?thesis using nn assms(4)
    by (simp add: write_raw_def file_write_def layout_def)
qed

lemma sim_write_raw_new:
  assumes "layout_ok c hr disk sls recs" "r = int (length recs)" "length d = rsize c"
  shows "write_raw (layout c hr disk sls recs) r d = Inr (layout c hr disk sls (recs @ [d]))"
proof -
  have u: "list_all (\<lambda>b. length b = rsize c) recs" using assms(1) by (simp add: layout_ok_def)
  have nn: "0 \<le> record_ofs (layout c hr disk sls recs) r"
    using records_region_layout[OF assms(1)] assms(2) by (simp add: record_ofs_def)
  have "nat (record_ofs (layout c hr disk sls recs) r) = length (fbytes (layout c hr disk sls recs))"
    using rec_ofs_layout[OF assms(1), of r 0] assms(2) length_concat_uniform[OF u]
    by (simp add: layout_def)
  then show ?thesis using nn assms(3) write_at_end[of "fbytes (layout c hr disk sls recs)" d]
    by (simp add: write_raw_def file_write_def layout_def)
qed

lemma sim_write_next_free:
  assumes "layout_ok c hr disk sls recs" "0 \<le> r" "r < int (length recs)"
    "- 2147483648 \<le> v" "v < 2147483648"
  shows "write_next_free (layout c hr disk sls recs) r v
         = Inr (layout c hr disk sls
                  (recs[nat r := write_at (recs ! nat r) (pad_off c) (le_bytes 4 (v mod 4294967296))]))"
proof -
  have u: "list_all (\<lambda>b. length b = rsize c) recs" and p: "pad_off c + 4 \<le> rsize c"
    using assms(1) by (simp_all add: layout_ok_def)
  have nn: "0 \<le> record_ofs (layout c hr disk sls recs) r + int (pad_off c)"
    using records_region_layout[OF assms(1)] assms(2) by (simp add: record_ofs_def)
  have "write_at (fbytes (layout c hr disk sls recs))
          (nat (record_ofs (layout c hr disk sls recs) r + int (pad_off c))) (le_bytes 4 (v mod 4294967296))
     = (disk @ concat (map slot_bytes sls))
        @ concat (recs[nat r := write_at (recs ! nat r) (pad_off c) (le_bytes 4 (v mod 4294967296))]) @ []"
    using block_write[OF u, of "nat r" "pad_off c" "le_bytes 4 (v mod 4294967296)" "disk @ concat (map slot_bytes sls)" "[]"]
      rec_ofs_layout[OF assms(1,2), of "pad_off c"] assms(2,3) p
    by (simp add: layout_def)
  then show ?thesis using nn assms(4,5)
    by (simp add: write_next_free_def pack_i_def file_write_def layout_def)
qed

lemma sim_write_header:
  assumes "layout_ok c hr disk sls recs" "header_in_range (hr\<lparr>updated_at := now\<rparr>)"
  shows "write_header now (layout c hr disk sls recs)
         = (Inr (), layout c (hr\<lparr>updated_at := now\<rparr>) (header_bytes (hr\<lparr>updated_at := now\<rparr>)) sls recs)"
proof -
  have d: "length disk = 128" using assms(1) by (simp add: layout_ok_def)
  have "write_at (disk @ concat (map slot_bytes sls) @ concat recs) 0 (header_bytes (hr\<lparr>updated_at := now\<rparr>))
     = header_bytes (hr\<lparr>updated_at := now\<rparr>) @ concat (map slot_bytes sls) @ concat recs"
    using write_at_mid[of 0 "header_bytes (hr\<lparr>updated_at := now\<rparr>)" disk "[]" "concat (map slot_bytes sls) @ concat recs"]
      write_at_whole[of "header_bytes (hr\<lparr>updated_at := now\<rparr>)" disk] d
    by simp
  then show ?thesis
    by (simp add: write_header_def Let_def Header_pack_header_bytes[OF assms(2)] layout_def)
qed

lemma sim_open_new:
  assumes "header_in_range (Header_new (tmagic c) (int (rsize c)) (slots c) now)"
  shows "open_new now c
         = Inr (layout c (Header_new (tmagic c) (int (rsize c)) (slots c) now)
                  (header_bytes (Header_new (tmagic c) (int (rsize c)) (slots c) now))
                  (replicate (nat (slots c)) \<lparr>key = 0, rec_index = 0\<rparr>) [])"
proof -
  have "slot_in_range \<lparr>key = 0, rec_index = 0\<rparr>" by (simp add: slot_in_range_def)
  from IndexSlot_pack_slot_bytes[OF this] show ?thesis
    by (simp add: open_new_def Let_def Header_pack_header_bytes[OF assms] layout_def map_replicate_const)
qed

lemma sim_alloc_fresh:
  assumes "layout_ok c hr disk sls recs" "free_head hr = - 1"
  shows "alloc_rec_index (layout c hr disk sls recs) = (Inr (int (length recs)), layout c hr disk sls recs)"
  using assms by (simp add: alloc_rec_index_def sim_records_count)

lemma sim_alloc_pop:
  assumes "layout_ok c hr disk sls recs" "free_head hr \<noteq> - 1" "0 \<le> free_head hr"
    "free_head hr < int (length recs)"
  shows "alloc_rec_index (layout c hr disk sls recs)
         = (Inr (free_head hr),
            layout c (hr\<lparr>free_head := unpack_i (take 4 (drop (pad_off c) (recs ! nat (free_head hr))))\<rparr>) disk sls recs)"
proof -
  have "length (recs ! nat (free_head hr)) = rsize c" "pad_off c + 4 \<le> rsize c"
    using assms by (simp_all add: layout_ok_def list_all_length)
  then show ?thesis using assms
    by (simp add: alloc_rec_index_def Let_def sim_read_link)
qed

section \<open>Probing the index\<close>

lemma read_slot_range:
  "read_slot t j = Inr sl \<Longrightarrow> 0 \<le> key sl \<and> key sl < 4294967296 \<and> 0 \<le> rec_index sl \<and> rec_index sl < 4294967296"
  by (auto simp: read_slot_def dest: IndexSlot_unpack_range split: sum.splits)

lemma mod_slot_range: "0 < (n::int) \<Longrightarrow> 0 \<le> x mod n \<and> x mod n < n"
  by simp

lemma lookup_loop_cong:
  assumes "index_slots (hdr t') = index_slots (hdr t)" "0 < index_slots (hdr t)"
    and "\<And>j. 0 \<le> j \<Longrightarrow> j < index_slots (hdr t) \<Longrightarrow>
           read_slot t' j = read_slot t j \<or>
           (\<exists>sl sl'. read_slot t j = Inr sl \<and> read_slot t' j = Inr sl' \<and> key sl \<noteq> 0 \<and> key sl \<noteq> k
                      \<and> key sl' \<noteq> 0 \<and> key sl' \<noteq> k)"
  shows "lookup_loop t' k start is = lookup_loop t k start is"
proof (induction "is")
  case Nil
  then show ?case by simp
next
  case (Cons i "is")
  let ?j = "(start + i) mod index_slots (hdr t)"
  have r: "0 \<le> ?j" "?j < index_slots (hdr t)" using assms(2) by simp_all
  from assms(3)[OF r] show ?case
  proof
    assume "read_slot t' ?j = read_slot t ?j"
    then show ?thesis using Cons assms(1) by (simp add: Let_def split: sum.splits)
  next
    assume "\<exists>sl sl'. read_slot t ?j = Inr sl \<and> read_slot t' ?j = Inr sl' \<and> key sl \<noteq> 0 \<and> key sl \<noteq> k
                      \<and> key sl' \<noteq> 0 \<and> key sl' \<noteq> k"
    then show ?thesis using Cons assms(1) by (auto simp: Let_def)
  qed
qed

lemma lookup_cong:
  assumes "index_slots (hdr t') = index_slots (hdr t)" "0 \<le> index_slots (hdr t)"
    and "\<And>j. 0 \<le> j \<Longrightarrow> j < index_slots (hdr t) \<Longrightarrow>
           read_slot t' j = read_slot t j \<or>
           (\<exists>sl sl'. read_slot t j = Inr sl \<and> read_slot t' j = Inr sl' \<and> key sl \<noteq> 0 \<and> key sl \<noteq> k
                      \<and> key sl' \<noteq> 0 \<and> key sl' \<noteq> k)"
  shows "lookup t' k = lookup t k"
proof (cases "index_slots (hdr t) = 0")
  case True
  then show ?thesis using assms(1) by (simp add: lookup_def hash_def)
next
  case False
  then have "0 < index_slots (hdr t)" using assms(2) by simp
  from lookup_loop_cong[OF assms(1) this assms(3)] show ?thesis
    using assms(1) by (simp add: lookup_def hash_def)
qed

lemma same_index_lookup: "index_present t \<Longrightarrow> same_index t t' \<Longrightarrow> lookup t' k = lookup t k"
  by (rule lookup_cong) (auto simp: same_index_def index_present_def)

lemma slot_of_key_loop_cong:
  assumes "same_index t t'" "0 < index_slots (hdr t)"
  shows "slot_of_key_loop t' k start is = slot_of_key_loop t k start is"
proof (induction "is")
  case Nil
  then show ?case by simp
next
  case (Cons i "is")
  let ?j = "(start + i) mod index_slots (hdr t)"
  have "0 \<le> ?j" "?j < index_slots (hdr t)" using assms(2) by simp_all
  then have "read_slot t' ?j = read_slot t ?j" using assms(1) by (simp add: same_index_def)
  then show ?case using Cons assms(1) by (simp add: Let_def same_index_def split: sum.splits)
qed

lemma same_index_slot_of_key:
  assumes "index_present t" "same_index t t'"
  shows "slot_of_key t' k = slot_of_key t k"
proof (cases "index_slots (hdr t) = 0")
  case True
  then show ?thesis using assms(2) by (simp add: slot_of_key_def hash_def same_index_def)
next
  case False
  then have "0 < index_slots (hdr t)" using assms(1) by (simp add: index_present_def)
  from slot_of_key_loop_cong[OF assms(2) this] show ?thesis
    using assms(2) by (simp add: slot_of_key_def hash_def same_index_def)
qed

lemma find_slot_loop_cong:
  assumes "same_index t t'" "0 < index_slots (hdr t)"
  shows "find_slot_loop t' k start ft is = find_slot_loop t k start ft is"
proof (induction "is" arbitrary: ft)
  case Nil
  then show ?case by simp
next
  case (Cons i "is")
  let ?j = "(start + i) mod index_slots (hdr t)"
  have "0 \<le> ?j" "?j < index_slots (hdr t)" using assms(2) by simp_all
  then have "read_slot t' ?j = read_slot t ?j" using assms(1) by (simp add: same_index_def)
  then show ?case using Cons assms(1) by (simp add: Let_def same_index_def split: sum.splits)
qed

lemma same_index_find_slot:
  assumes "index_present t" "same_index t t'"
  shows "find_slot_for_insert t' k = find_slot_for_insert t k"
proof (cases "index_slots (hdr t) = 0")
  case True
  then show ?thesis using assms(2) by (simp add: find_slot_for_insert_def hash_def same_index_def)
next
  case False
  then have "0 < index_slots (hdr t)" using assms(1) by (simp add: index_present_def)
  from find_slot_loop_cong[OF assms(2) this] show ?thesis
    using assms(2) by (simp add: find_slot_for_insert_def hash_def same_index_def)
qed

text \<open>What a successful probe for a present key has seen.\<close>

lemma lookup_loop_Some:
  assumes "lookup_loop t k start is = Inr (Some ri)"
  shows "\<exists>pre i post sl. is = pre @ i # post
           \<and> (\<forall>i' \<in> set pre. \<exists>sl'. read_slot t ((start + i') mod index_slots (hdr t)) = Inr sl'
                                  \<and> key sl' \<noteq> 0 \<and> key sl' \<noteq> k)
           \<and> read_slot t ((start + i) mod index_slots (hdr t)) = Inr sl
           \<and> key sl = k \<and> k \<noteq> 0 \<and> rec_index sl = ri
           \<and> slot_of_key_loop t k start is = Inr (Some ((start + i) mod index_slots (hdr t)))"
  using assms
proof (induction "is")
  case Nil
  then show ?case by simp
next
  case (Cons i "is")
  let ?j = "(start + i) mod index_slots (hdr t)"
  from Cons.prems obtain sl where sl: "read_slot t ?j = Inr sl" and k0: "key sl \<noteq> 0"
    by (auto simp: Let_def split: sum.splits if_splits)
  show ?case
  proof (cases "key sl = k")
    case True
    then have "rec_index sl = ri" using Cons.prems sl k0 by (simp add: Let_def)
    then have "i # is = [] @ i # is \<and> (\<forall>i' \<in> set []. \<exists>sl'. read_slot t ((start + i') mod index_slots (hdr t)) = Inr sl'
                                  \<and> key sl' \<noteq> 0 \<and> key sl' \<noteq> k)
           \<and> read_slot t ?j = Inr sl \<and> key sl = k \<and> k \<noteq> 0 \<and> rec_index sl = ri
           \<and> slot_of_key_loop t k start (i # is) = Inr (Some ?j)"
      using sl k0 True by (simp add: Let_def)
    then show ?thesis by (intro exI)
  next
    case False
    then have "lookup_loop t k start is = Inr (Some ri)" using Cons.prems sl k0 by (simp add: Let_def)
    from Cons.IH[OF this] obtain pre i0 post sl0 where
      h: "is = pre @ i0 # post"
         "\<forall>i' \<in> set pre. \<exists>sl'. read_slot t ((start + i') mod index_slots (hdr t)) = Inr sl'
                                  \<and> key sl' \<noteq> 0 \<and> key sl' \<noteq> k"
         "read_slot t ((start + i0) mod index_slots (hdr t)) = Inr sl0"
         "key sl0 = k" "k \<noteq> 0" "rec_index sl0 = ri"
         "slot_of_key_loop t k start is = Inr (Some ((start + i0) mod index_slots (hdr t)))"
      by (elim exE conjE)
    have "i # is = (i # pre) @ i0 # post
           \<and> (\<forall>i' \<in> set (i # pre). \<exists>sl'. read_slot t ((start + i') mod index_slots (hdr t)) = Inr sl'
                                  \<and> key sl' \<noteq> 0 \<and> key sl' \<noteq> k)
           \<and> read_slot t ((start + i0) mod index_slots (hdr t)) = Inr sl0
           \<and> key sl0 = k \<and> k \<noteq> 0 \<and> rec_index sl0 = ri
           \<and> slot_of_key_loop t k start (i # is) = Inr (Some ((start + i0) mod index_slots (hdr t)))"
      using h sl k0 False by (simp add: Let_def)
    then show ?thesis by (intro exI)
  qed
qed

lemma lookup_Some:
  assumes "lookup t k = Inr (Some ri)"
  shows "index_slots (hdr t) \<noteq> 0 \<and> k \<noteq> 0 \<and> 0 \<le> ri
         \<and> (\<exists>i sl. read_slot t ((k mod index_slots (hdr t) + i) mod index_slots (hdr t)) = Inr sl
                \<and> key sl = k \<and> rec_index sl = ri
                \<and> slot_of_key t k = Inr (Some ((k mod index_slots (hdr t) + i) mod index_slots (hdr t))))"
proof -
  from assms have n0: "index_slots (hdr t) \<noteq> 0"
    and l: "lookup_loop t k (k mod index_slots (hdr t)) (range_py (index_slots (hdr t))) = Inr (Some ri)"
    by (auto simp: lookup_def hash_def split: if_splits)
  from lookup_loop_Some[OF l] obtain pre i post sl where
    h: "read_slot t ((k mod index_slots (hdr t) + i) mod index_slots (hdr t)) = Inr sl"
       "key sl = k" "k \<noteq> 0" "rec_index sl = ri"
       "slot_of_key_loop t k (k mod index_slots (hdr t)) (range_py (index_slots (hdr t)))
          = Inr (Some ((k mod index_slots (hdr t) + i) mod index_slots (hdr t)))"
    by (elim exE conjE)
  have "0 \<le> ri" using read_slot_range[OF h(1)] h(4) by simp
  moreover have "slot_of_key t k = Inr (Some ((k mod index_slots (hdr t) + i) mod index_slots (hdr t)))"
    using h(5) n0 by (simp add: slot_of_key_def hash_def)
  ultimately show ?thesis using n0 h by (intro conjI exI[of _ i] exI[of _ sl]) simp_all
qed

lemma find_slot_loop_Inr:
  assumes "find_slot_loop t k start ft is = Inr j" "0 < index_slots (hdr t)"
  shows "\<exists>pre i post. is = pre @ i # post
           \<and> (\<forall>i' \<in> set pre. \<exists>sl'. read_slot t ((start + i') mod index_slots (hdr t)) = Inr sl'
                                  \<and> key sl' \<noteq> 0 \<and> key sl' \<noteq> k)
           \<and> (\<exists>sl. read_slot t ((start + i) mod index_slots (hdr t)) = Inr sl \<and> key sl = 0)
           \<and> k \<noteq> 0
           \<and> (if 0 \<le> ft then j = ft
               else j = (start + i) mod index_slots (hdr t)
                    \<or> (\<exists>i' \<in> set pre. j = (start + i') mod index_slots (hdr t)
                          \<and> (\<exists>sl'. read_slot t j = Inr sl' \<and> key sl' = TOMBSTONE_KEY)))"
  using assms(1)
proof (induction "is" arbitrary: ft)
  case Nil
  then show ?case by simp
next
  case (Cons i "is")
  let ?n = "index_slots (hdr t)"
  let ?j = "(start + i) mod ?n"
  from Cons.prems obtain sl where sl: "read_slot t ?j = Inr sl" and kk: "key sl \<noteq> k"
    by (auto simp: Let_def split: sum.splits if_splits)
  have jpos: "0 \<le> ?j" using assms(2) by simp
  show ?case
  proof (cases "key sl = 0")
    case True
    then have "j = (if 0 \<le> ft then ft else ?j)" using Cons.prems sl kk
      by (auto simp: Let_def TOMBSTONE_KEY_def split: if_splits)
    then have "i # is = [] @ i # is
           \<and> (\<forall>i' \<in> set []. \<exists>sl'. read_slot t ((start + i') mod ?n) = Inr sl'
                                  \<and> key sl' \<noteq> 0 \<and> key sl' \<noteq> k)
           \<and> (\<exists>sl. read_slot t ?j = Inr sl \<and> key sl = 0)
           \<and> k \<noteq> 0
           \<and> (if 0 \<le> ft then j = ft
               else j = ?j
                    \<or> (\<exists>i' \<in> set []. j = (start + i') mod ?n
                          \<and> (\<exists>sl'. read_slot t j = Inr sl' \<and> key sl' = TOMBSTONE_KEY)))"
      using sl True kk by auto
    then show ?thesis by (intro exI)
  next
    case False
    let ?ft' = "if key sl = TOMBSTONE_KEY \<and> ft < 0 then ?j else ft"
    have rec: "find_slot_loop t k start ?ft' is = Inr j"
      using Cons.prems sl kk False by (simp add: Let_def)
    from Cons.IH[OF rec] obtain pre i0 post sl0 where
      h: "is = pre @ i0 # post"
         "\<forall>i' \<in> set pre. \<exists>sl'. read_slot t ((start + i') mod ?n) = Inr sl' \<and> key sl' \<noteq> 0 \<and> key sl' \<noteq> k"
         "read_slot t ((start + i0) mod ?n) = Inr sl0" "key sl0 = 0"
         "k \<noteq> 0"
         "if 0 \<le> ?ft' then j = ?ft'
          else j = (start + i0) mod ?n
               \<or> (\<exists>i' \<in> set pre. j = (start + i') mod ?n
                     \<and> (\<exists>sl'. read_slot t j = Inr sl' \<and> key sl' = TOMBSTONE_KEY))"
      by (elim exE conjE)
    have last: "if 0 \<le> ft then j = ft
               else j = (start + i0) mod ?n
                    \<or> (\<exists>i' \<in> set (i # pre). j = (start + i') mod ?n
                          \<and> (\<exists>sl'. read_slot t j = Inr sl' \<and> key sl' = TOMBSTONE_KEY))"
    proof (cases "0 \<le> ft")
      case True
      then show ?thesis using h(6) by simp
    next
      case nft: False
      show ?thesis
      proof (cases "key sl = TOMBSTONE_KEY")
        case True
        then have "j = ?j" using h(6) nft jpos by simp
        then show ?thesis using nft sl True by simp
      next
        case False
        then show ?thesis using h(6) nft by auto
      qed
    qed
    have "i # is = (i # pre) @ i0 # post
           \<and> (\<forall>i' \<in> set (i # pre). \<exists>sl'. read_slot t ((start + i') mod ?n) = Inr sl'
                                  \<and> key sl' \<noteq> 0 \<and> key sl' \<noteq> k)
           \<and> (\<exists>sl. read_slot t ((start + i0) mod ?n) = Inr sl \<and> key sl = 0)
           \<and> k \<noteq> 0
           \<and> (if 0 \<le> ft then j = ft
               else j = (start + i0) mod ?n
                    \<or> (\<exists>i' \<in> set (i # pre). j = (start + i') mod ?n
                          \<and> (\<exists>sl'. read_slot t j = Inr sl' \<and> key sl' = TOMBSTONE_KEY)))"
      using h(1-5) last sl False kk by auto
    then show ?thesis by (intro exI)
  qed
qed

lemma range_py_split:
  assumes "range_py n = pre @ i # post"
  shows "set pre = {0..<i} \<and> 0 \<le> i \<and> i < n"
proof -
  let ?m = "length pre"
  have len: "?m < nat n" using arg_cong[OF assms, of length] by (simp add: range_py_def)
  have "pre = take ?m (range_py n)" using assms by simp
  also have "\<dots> = map int [0..<?m]" using len by (simp add: range_py_def take_map min_def)
  finally have p: "pre = map int [0..<?m]" .
  have "i = range_py n ! ?m" using assms by simp
  also have "\<dots> = int ?m" using len by (simp add: range_py_def)
  finally have i: "i = int ?m" .
  have "set pre = int ` {0..<?m}" using p by (metis atLeastLessThan_upt set_map)
  also have "\<dots> = {0..<i}" unfolding i by (simp add: image_int_atLeastLessThan)
  finally show ?thesis using i len by simp
qed

text \<open>What a successful insert probe has seen: an empty slot at distance \<open>i\<close> from the
  hash slot, no empty slot and no slot with the key before it, and the returned slot
  is the empty one or a tombstone before it.\<close>

lemma find_slot_for_insert_Inr:
  assumes "find_slot_for_insert t k = Inr j" "index_present t"
  shows "0 < index_slots (hdr t) \<and> k \<noteq> 0 \<and>
         (\<exists>i ij. 0 \<le> i \<and> i < index_slots (hdr t) \<and> 0 \<le> ij \<and> ij \<le> i
            \<and> (\<forall>i'. 0 \<le> i' \<and> i' < i \<longrightarrow>
                  (\<exists>sl'. read_slot t ((k + i') mod index_slots (hdr t)) = Inr sl'
                        \<and> key sl' \<noteq> 0 \<and> key sl' \<noteq> k))
            \<and> (\<exists>sl. read_slot t ((k + i) mod index_slots (hdr t)) = Inr sl \<and> key sl = 0)
            \<and> j = (k + ij) mod index_slots (hdr t)
            \<and> (\<exists>sl. read_slot t j = Inr sl \<and> (key sl = 0 \<or> key sl = TOMBSTONE_KEY)))"
proof -
  let ?n = "index_slots (hdr t)"
  from assms(1) have n0: "?n \<noteq> 0"
    and l: "find_slot_loop t k (k mod ?n) (- 1) (range_py ?n) = Inr j"
    by (auto simp: find_slot_for_insert_def hash_def split: if_splits)
  have npos: "0 < ?n" using n0 assms(2) by (simp add: index_present_def)
  from find_slot_loop_Inr[OF l npos] obtain pre i post sl0 where
    h: "range_py ?n = pre @ i # post"
       "\<forall>i' \<in> set pre. \<exists>sl'. read_slot t ((k mod ?n + i') mod ?n) = Inr sl' \<and> key sl' \<noteq> 0 \<and> key sl' \<noteq> k"
       "read_slot t ((k mod ?n + i) mod ?n) = Inr sl0" "key sl0 = 0"
       "k \<noteq> 0"
       "j = (k mod ?n + i) mod ?n
          \<or> (\<exists>i' \<in> set pre. j = (k mod ?n + i') mod ?n
                \<and> (\<exists>sl'. read_slot t j = Inr sl' \<and> key sl' = TOMBSTONE_KEY))"
    by (elim exE conjE) simp
  from range_py_split[OF h(1)] have sp: "set pre = {0..<i}" "0 \<le> i" "i < ?n" by simp_all
  have pm: "(k mod ?n + x) mod ?n = (k + x) mod ?n" for x by (simp add: mod_add_left_eq)
  from h(6) obtain ij where ij: "0 \<le> ij" "ij \<le> i" "j = (k + ij) mod ?n"
    "\<exists>sl. read_slot t j = Inr sl \<and> (key sl = 0 \<or> key sl = TOMBSTONE_KEY)"
  proof
    assume a: "j = (k mod ?n + i) mod ?n"
    show ?thesis using that[of i] a h(3,4) sp(2) by (auto simp: pm)
  next
    assume "\<exists>i' \<in> set pre. j = (k mod ?n + i') mod ?n
                \<and> (\<exists>sl'. read_slot t j = Inr sl' \<and> key sl' = TOMBSTONE_KEY)"
    then obtain i' where "i' \<in> set pre" "j = (k mod ?n + i') mod ?n"
      "\<exists>sl'. read_slot t j = Inr sl' \<and> key sl' = TOMBSTONE_KEY" by (elim bexE conjE)
    then show ?thesis using that[of i'] sp(1) by (auto simp: pm)
  qed
  have "\<forall>i'. 0 \<le> i' \<and> i' < i \<longrightarrow>
          (\<exists>sl'. read_slot t ((k + i') mod ?n) = Inr sl' \<and> key sl' \<noteq> 0 \<and> key sl' \<noteq> k)"
    using h(2) sp(1) by (auto simp: pm)
  moreover have "\<exists>sl. read_slot t ((k + i) mod ?n) = Inr sl \<and> key sl = 0"
    using h(3,4) by (simp add: pm)
  ultimately show ?thesis using npos h(5) sp(2,3) ij
    by (intro conjI exI[of _ i] exI[of _ ij]) simp_all
qed

section \<open>Effects of delete and add\<close>

lemma delete_record_steps:
  assumes "delete_record now t k = (Inr u, t')"
  shows "\<exists>ri raw t1 t2 t4.
           lookup t k = Inr (Some ri) \<and> read_raw t ri = Inr raw \<and> raw \<noteq> []
           \<and> write_raw t ri (raw[0 := 0]) = Inr t1
           \<and> write_next_free t1 ri (free_head (hdr t1)) = Inr t2
           \<and> tombstone_slot (t2\<lparr>hdr := (hdr t2)\<lparr>free_head := ri\<rparr>\<rparr>) k = Inr t4
           \<and> write_header now (t4\<lparr>hdr := (hdr t4)\<lparr>active_count := active_count (hdr t4) - 1,
                                   deleted_count := deleted_count (hdr t4) + 1\<rparr>\<rparr>) = (Inr u, t')"
  using assms unfolding delete_record_def Let_def
  by (simp split: sum.splits option.splits if_splits)

lemma add_record_steps:
  assumes "add_record now t k p = (Inr i, t')"
  shows "\<exists>t1 t2 j t3 u.
           alloc_rec_index t = (Inr i, t1) \<and> write_raw t1 i p = Inr t2
           \<and> find_slot_for_insert t2 k = Inr j
           \<and> write_slot t2 j \<lparr>key = k, rec_index = i\<rparr> = Inr t3
           \<and> write_header now (t3\<lparr>hdr := (hdr t3)\<lparr>active_count := active_count (hdr t3) + 1\<rparr>\<rparr>) = (Inr u, t')"
  using assms unfolding add_record_def
  by (simp split: sum.splits prod.splits)

lemma alloc_rec_index_Inr:
  assumes "alloc_rec_index t = (Inr i, t1)"
  shows "(free_head (hdr t) \<noteq> - 1 \<longrightarrow>
            i = free_head (hdr t)
            \<and> (\<exists>b. file_read (fbytes t) (record_ofs t i + int (pad_off t)) 4 = Inr b
                   \<and> t1 = t\<lparr>hdr := (hdr t)\<lparr>free_head := unpack_i b\<rparr>\<rparr>))
         \<and> (free_head (hdr t) = - 1 \<longrightarrow> records_count t = Inr i \<and> t1 = t)"
  using assms unfolding alloc_rec_index_def Let_def
  by (auto split: sum.splits if_splits)

lemma index_present_hdr_upd:
  "index_slots hr = index_slots (hdr t) \<Longrightarrow> index_present (t\<lparr>hdr := hr\<rparr>) = index_present t"
  by (simp add: index_present_def records_region_ofs_def)

lemma read_slot_hdr_upd [simp]: "read_slot (t\<lparr>hdr := hr\<rparr>) j = read_slot t j"
  by (simp add: read_slot_def)

lemma same_index_hdr_upd:
  "index_slots hr = index_slots (hdr t) \<Longrightarrow> same_index t (t\<lparr>hdr := hr\<rparr>)"
  by (simp add: same_index_def)

text \<open>The effect of a successful \<open>delete_record\<close>.\<close>

lemma delete_record_effect:
  assumes ip: "index_present t" and d: "delete_record now t k = (Inr u, t')"
  shows "\<exists>ri sj sl b.
           lookup t k = Inr (Some ri) \<and> 0 \<le> ri \<and> k \<noteq> 0
           \<and> 0 \<le> sj \<and> sj < index_slots (hdr t)
           \<and> read_slot t sj = Inr sl \<and> key sl = k \<and> rec_index sl = ri
           \<and> read_slot t' sj = Inr \<lparr>key = TOMBSTONE_KEY, rec_index = 0\<rparr>
           \<and> (\<forall>j. 0 \<le> j \<and> j < index_slots (hdr t) \<and> j \<noteq> sj \<longrightarrow> read_slot t' j = read_slot t j)
           \<and> index_present t' \<and> index_slots (hdr t') = index_slots (hdr t)
           \<and> rsize t' = rsize t \<and> pad_off t' = pad_off t
           \<and> free_head (hdr t') = ri
           \<and> pack_i (free_head (hdr t)) = Inr b
           \<and> take 4 (drop (nat (record_ofs t ri + int (pad_off t))) (fbytes t')) = b"
proof -
  from delete_record_steps[OF d] obtain ri raw t1 t2 t4 where
    lk: "lookup t k = Inr (Some ri)" and rr: "read_raw t ri = Inr raw" and
    w1: "write_raw t ri (raw[0 := 0]) = Inr t1" and
    w2: "write_next_free t1 ri (free_head (hdr t1)) = Inr t2" and
    ts: "tombstone_slot (t2\<lparr>hdr := (hdr t2)\<lparr>free_head := ri\<rparr>\<rparr>) k = Inr t4" and
    wh: "write_header now (t4\<lparr>hdr := (hdr t4)\<lparr>active_count := active_count (hdr t4) - 1,
                                   deleted_count := deleted_count (hdr t4) + 1\<rparr>\<rparr>) = (Inr u, t')"
    by (elim exE conjE)
  let ?n = "index_slots (hdr t)"
  let ?t3 = "t2\<lparr>hdr := (hdr t2)\<lparr>free_head := ri\<rparr>\<rparr>"
  from lookup_Some[OF lk] obtain i sl where
    n0: "?n \<noteq> 0" and k0: "k \<noteq> 0" and ri0: "0 \<le> ri" and
    sl: "read_slot t ((k mod ?n + i) mod ?n) = Inr sl" "key sl = k" "rec_index sl = ri" and
    sk: "slot_of_key t k = Inr (Some ((k mod ?n + i) mod ?n))"
    by (elim exE conjE)
  let ?sj = "(k mod ?n + i) mod ?n"
  have npos: "0 < ?n" using n0 ip by (simp add: index_present_def)
  have sjr: "0 \<le> ?sj" "?sj < ?n" using npos by simp_all
  from write_raw_frame[OF ip ri0 w1] have
    f1: "same_index t t1" "index_present t1" "hdr t1 = hdr t" "rsize t1 = rsize t" "pad_off t1 = pad_off t"
    by simp_all
  from write_next_free_frame[OF f1(2) ri0 w2] obtain b where
    f2: "same_index t1 t2" "index_present t2" "hdr t2 = hdr t1" "rsize t2 = rsize t1" "pad_off t2 = pad_off t1"
    and b: "pack_i (free_head (hdr t1)) = Inr b"
    and lnk: "take 4 (drop (nat (record_ofs t1 ri + int (pad_off t1))) (fbytes t2)) = b"
    by (elim exE conjE)
  have ro: "record_ofs t1 ri = record_ofs t ri"
    using f1 by (simp add: record_ofs_def records_region_ofs_def)
  have si3: "same_index t ?t3"
    using f1(1) f2(1) f1(3) f2(3) by (simp add: same_index_def)
  have ip3: "index_present ?t3" using f2(2) by (simp add: index_present_hdr_upd)
  have n3: "index_slots (hdr ?t3) = ?n" using f1(3) f2(3) by simp
  have "slot_of_key ?t3 k = Inr (Some ?sj)" using same_index_slot_of_key[OF ip si3] sk by simp
  then have ws: "write_slot ?t3 ?sj \<lparr>key = TOMBSTONE_KEY, rec_index = 0\<rparr> = Inr t4"
    using ts by (simp add: tombstone_slot_def)
  have sjr3: "0 \<le> ?sj" "?sj < index_slots (hdr ?t3)" using sjr n3 by simp_all
  from write_slot_effect[OF ip3 sjr3 ws] have
    f4: "read_slot t4 ?sj = Inr \<lparr>key = TOMBSTONE_KEY, rec_index = 0\<rparr>"
        "\<forall>j'. 0 \<le> j' \<and> j' < index_slots (hdr ?t3) \<and> j' \<noteq> ?sj \<longrightarrow> read_slot t4 j' = read_slot ?t3 j'"
        "index_present t4" "hdr t4 = hdr ?t3" "rsize t4 = rsize ?t3" "pad_off t4 = pad_off ?t3"
        "\<forall>p. nat (records_region_ofs ?t3) \<le> p \<longrightarrow> drop p (fbytes t4) = drop p (fbytes ?t3)"
    by simp_all
  let ?t5 = "t4\<lparr>hdr := (hdr t4)\<lparr>active_count := active_count (hdr t4) - 1,
                                deleted_count := deleted_count (hdr t4) + 1\<rparr>\<rparr>"
  have ip5: "index_present ?t5" using f4(3) by (simp add: index_present_hdr_upd)
  from write_header_frame[OF ip5 wh] have
    f5: "same_index ?t5 t'" "index_present t'" "hdr t' = (hdr ?t5)\<lparr>updated_at := now\<rparr>"
        "rsize t' = rsize ?t5" "pad_off t' = pad_off ?t5"
        "\<forall>p. 128 \<le> p \<longrightarrow> drop p (fbytes t') = drop p (fbytes ?t5)"
    by simp_all
  have n5: "index_slots (hdr ?t5) = ?n" using f4(4) n3 by simp
  have rs': "read_slot t' j = read_slot t4 j" if "0 \<le> j" "j < ?n" for j
    using f5(1) n5 that by (simp add: same_index_def)
  have rs3: "read_slot ?t3 j = read_slot t j" if "0 \<le> j" "j < ?n" for j
    using si3 that by (simp add: same_index_def)
  have c1: "read_slot t' ?sj = Inr \<lparr>key = TOMBSTONE_KEY, rec_index = 0\<rparr>"
    using rs'[OF sjr] f4(1) by simp
  have c2: "\<forall>j. 0 \<le> j \<and> j < ?n \<and> j \<noteq> ?sj \<longrightarrow> read_slot t' j = read_slot t j"
    using rs' rs3 f4(2) n3 by simp
  have reg: "records_region_ofs ?t3 = records_region_ofs t"
    using n3 by (simp add: records_region_ofs_def)
  let ?o = "nat (record_ofs t ri + int (pad_off t))"
  have oge: "records_region_ofs t \<le> record_ofs t ri + int (pad_off t)"
    using ri0 by (simp add: record_ofs_def)
  have rpos: "128 \<le> records_region_ofs t" using npos
    by (simp add: records_region_ofs_def HEADER_SIZE_def INDEX_SLOT_SIZE_def)
  have o1: "nat (records_region_ofs ?t3) \<le> ?o" using oge reg by simp
  have o2: "128 \<le> ?o" using oge rpos by simp
  have "drop ?o (fbytes t') = drop ?o (fbytes ?t5)" using f5(6) o2 by simp
  also have "\<dots> = drop ?o (fbytes t4)" by simp
  also have "\<dots> = drop ?o (fbytes ?t3)" using f4(7) o1 by simp
  also have "\<dots> = drop ?o (fbytes t2)" by simp
  finally have "take 4 (drop ?o (fbytes t')) = b" using lnk ro f1(5) by simp
  moreover have "free_head (hdr t') = ri" using f5(3) f4(4) by simp
  moreover have "index_slots (hdr t') = ?n" using f5(3) n5 by simp
  moreover have "rsize t' = rsize t" "pad_off t' = pad_off t"
    using f5(4,5) f4(5,6) f2(4,5) f1(4,5) by simp_all
  moreover have "pack_i (free_head (hdr t)) = Inr b" using b f1(3) by simp
  ultimately show ?thesis using lk ri0 k0 sjr sl c1 c2 f5(2)
    by (intro exI[of _ ri] exI[of _ ?sj] exI[of _ sl] exI[of _ b]) simp
qed

lemma alloc_rec_index_frame:
  assumes "alloc_rec_index t = (r, t1)"
  shows "fbytes t1 = fbytes t \<and> index_slots (hdr t1) = index_slots (hdr t)
         \<and> rsize t1 = rsize t \<and> pad_off t1 = pad_off t
         \<and> active_count (hdr t1) = active_count (hdr t)
         \<and> deleted_count (hdr t1) = deleted_count (hdr t)"
  using assms unfolding alloc_rec_index_def Let_def
  by (auto split: sum.splits if_splits)

lemma write_slot_Inr_range:
  assumes "write_slot t j s = Inr t'"
  shows "0 \<le> key s \<and> key s < 4294967296 \<and> 0 \<le> rec_index s \<and> rec_index s < 4294967296"
  using assms by (auto simp: write_slot_def split: if_splits sum.splits dest!: IndexSlot_pack_Inr)

text \<open>The effect of a successful \<open>add_record\<close>.\<close>

lemma add_record_effect:
  assumes ip: "index_present t" and a: "add_record now t k p = (Inr i, t')"
  shows "\<exists>t1 j. alloc_rec_index t = (Inr i, t1) \<and> find_slot_for_insert t k = Inr j
           \<and> 0 \<le> j \<and> j < index_slots (hdr t) \<and> 0 \<le> i
           \<and> read_slot t' j = Inr \<lparr>key = k, rec_index = i\<rparr>
           \<and> (\<forall>j'. 0 \<le> j' \<and> j' < index_slots (hdr t) \<and> j' \<noteq> j \<longrightarrow> read_slot t' j' = read_slot t j')
           \<and> index_present t' \<and> index_slots (hdr t') = index_slots (hdr t)
           \<and> rsize t' = rsize t \<and> pad_off t' = pad_off t
           \<and> free_head (hdr t') = free_head (hdr t1)"
proof -
  let ?n = "index_slots (hdr t)"
  from add_record_steps[OF a] obtain t1 t2 j t3 u where
    al: "alloc_rec_index t = (Inr i, t1)" and w1: "write_raw t1 i p = Inr t2" and
    fs: "find_slot_for_insert t2 k = Inr j" and
    ws: "write_slot t2 j \<lparr>key = k, rec_index = i\<rparr> = Inr t3" and
    wh: "write_header now (t3\<lparr>hdr := (hdr t3)\<lparr>active_count := active_count (hdr t3) + 1\<rparr>\<rparr>) = (Inr u, t')"
    by (elim exE conjE)
  from alloc_rec_index_frame[OF al] have
    f0: "fbytes t1 = fbytes t" "index_slots (hdr t1) = ?n" "rsize t1 = rsize t" "pad_off t1 = pad_off t"
    by simp_all
  have ip1: "index_present t1" using ip f0 by (simp add: index_present_def records_region_ofs_def)
  have si1: "same_index t t1" using f0 by (simp add: same_index_def read_slot_def)
  have i0: "0 \<le> i" using write_slot_Inr_range[OF ws] by simp
  from write_raw_frame[OF ip1 i0 w1] have
    f2: "same_index t1 t2" "index_present t2" "hdr t2 = hdr t1" "rsize t2 = rsize t1" "pad_off t2 = pad_off t1"
    by simp_all
  have si2: "same_index t t2" using si1 f2(1) by (rule same_index_trans)
  have n2: "index_slots (hdr t2) = ?n" using f2(3) f0(2) by simp
  have fs0: "find_slot_for_insert t k = Inr j" using same_index_find_slot[OF ip si2] fs by simp
  from find_slot_for_insert_Inr[OF fs0 ip] obtain ij where
    npos: "0 < ?n" and j: "j = (k + ij) mod ?n" by (elim exE conjE)
  have jr: "0 \<le> j" "j < index_slots (hdr t2)" using j npos n2 by simp_all
  from write_slot_effect[OF f2(2) jr ws] have
    f3: "read_slot t3 j = Inr \<lparr>key = k, rec_index = i\<rparr>"
        "\<forall>j'. 0 \<le> j' \<and> j' < index_slots (hdr t2) \<and> j' \<noteq> j \<longrightarrow> read_slot t3 j' = read_slot t2 j'"
        "index_present t3" "hdr t3 = hdr t2" "rsize t3 = rsize t2" "pad_off t3 = pad_off t2"
    by simp_all
  let ?t4 = "t3\<lparr>hdr := (hdr t3)\<lparr>active_count := active_count (hdr t3) + 1\<rparr>\<rparr>"
  have ip4: "index_present ?t4" using f3(3) by (simp add: index_present_hdr_upd)
  from write_header_frame[OF ip4 wh] have
    f5: "same_index ?t4 t'" "index_present t'" "hdr t' = (hdr ?t4)\<lparr>updated_at := now\<rparr>"
        "rsize t' = rsize ?t4" "pad_off t' = pad_off ?t4"
    by simp_all
  have n4: "index_slots (hdr ?t4) = ?n" using f3(4) n2 by simp
  have rs': "read_slot t' x = read_slot t3 x" if "0 \<le> x" "x < ?n" for x
    using f5(1) n4 that by (simp add: same_index_def)
  have rs2: "read_slot t2 x = read_slot t x" if "0 \<le> x" "x < ?n" for x
    using si2 that by (simp add: same_index_def)
  have c1: "read_slot t' j = Inr \<lparr>key = k, rec_index = i\<rparr>" using rs' jr n2 f3(1) by simp
  have c2: "\<forall>j'. 0 \<le> j' \<and> j' < ?n \<and> j' \<noteq> j \<longrightarrow> read_slot t' j' = read_slot t j'"
    using rs' rs2 f3(2) n2 by simp
  have "free_head (hdr t') = free_head (hdr t1)" using f5(3) f3(4) f2(3) by simp
  moreover have "index_slots (hdr t') = ?n" using f5(3) n4 by simp
  moreover have "rsize t' = rsize t" "pad_off t' = pad_off t"
    using f5(4,5) f3(5,6) f2(4,5) f0(3,4) by simp_all
  ultimately show ?thesis using al fs0 jr n2 i0 c1 c2 f5(2)
    by (intro exI[of _ t1] exI[of _ j]) simp
qed

section \<open>Running concrete scenarios\<close>

lemma list_all_replicate_iff: "list_all P (replicate n x) \<longleftrightarrow> n = 0 \<or> P x"
  by (induction n) auto

lemma list_all_update_iff:
  "i < length xs \<Longrightarrow> list_all P xs \<Longrightarrow> list_all P (xs[i := x]) \<longleftrightarrow> P x"
  by (auto simp: list_all_iff set_update_memI dest!: set_update_subset_insert[THEN subsetD])

lemma replicate_4: "replicate 4 x = [x, x, x, x]"
  by (simp add: numeral_eq_Suc)

lemma list_update_Cons_numeral: "(x # xs)[numeral k := y] = x # xs[pred_numeral k := y]"
  by (simp add: numeral_eq_Suc)

lemma le_bytes_eq_Nil [simp]: "le_bytes n v = [] \<longleftrightarrow> n = 0"
  by (cases n) auto

lemma read_back_write_at_n:
  "length d = n \<Longrightarrow> take n (drop ofs (write_at fb ofs d)) = d"
  using read_back_write_at[of d ofs fb] by simp

lemma le_int_le_bytes_mod: "le_int (le_bytes n v) = v mod 256 ^ n"
proof (induction n arbitrary: v)
  case 0
  then show ?case by simp
next
  case (Suc n)
  have "uint (word_of_int (v mod 256) :: byte) = v mod 256"
    by (simp add: uint_word_of_int take_bit_eq_mod)
  then have "le_int (le_bytes (Suc n) v) = v mod 256 + 256 * (v div 256 mod 256 ^ n)"
    using Suc by simp
  also have "\<dots> = v mod (256 * 256 ^ n)"
    using zmod_zmult2_eq[of "256 ^ n" v 256] by simp
  finally show ?case by simp
qed

lemma unpack_i_le_bytes:
  "unpack_i (le_bytes 4 u) =
     (if u mod 4294967296 \<ge> 2147483648 then u mod 4294967296 - 4294967296 else u mod 4294967296)"
  by (simp add: unpack_i_def Let_def le_int_le_bytes_mod)

lemma open_new_fresh_table:
  "header_in_range (Header_new (tmagic c) (int (rsize c)) (slots c) now)
   \<Longrightarrow> open_new now c = Inr (fresh_table now c)"
  by (simp add: sim_open_new fresh_table_def)

lemma blank_record_facts [simp]:
  "0 < n \<Longrightarrow> length (blank_record n) = n" "blank_record n \<noteq> []"
  by (simp_all add: blank_record_def)

lemmas run_simps =
  add_record_def delete_record_def seed_add_record_def tombstone_slot_def read_record_def
  sim_alloc_fresh sim_alloc_pop sim_write_raw_new sim_write_raw sim_read_raw
  sim_read_slot sim_write_slot sim_write_header sim_write_next_free
  layout_ok_def fresh_table_def Header_new_def slot_in_range_def header_in_range_def
  find_slot_for_insert_def seed_find_slot_def lookup_def slot_of_key_def hash_def range_py_def
  upt_rec TOMBSTONE_KEY_def
  Cars_def CARS_SIZE_def CARS_PAD_def Customers_def CUST_SIZE_def CUST_PAD_def
  Contracts_def CONT_SIZE_def CONT_PAD_def
  list_all_replicate_iff replicate_4 list_update_Cons_numeral
  length_write_at read_back_write_at_n unpack_i_le_bytes

section \<open>Claims\<close>

text \<open>
  Claim C6 (the free list is last-in, first-out). In any table whose file holds its
  index region: when \<open>delete_record\<close> succeeds for a key whose record is \<open>rA\<close> and then
  for a key whose record is \<open>rB\<close>, and two calls of \<open>add_record\<close> then succeed, the
  first returns \<open>rB\<close> and the second returns \<open>rA\<close>.
\<close>

theorem free_list_lifo:
  assumes ip: "index_present t"
    and lA: "lookup t kA = Inr (Some rA)" and dA: "delete_record n1 t kA = (Inr u1, t1)"
    and lB: "lookup t1 kB = Inr (Some rB)" and dB: "delete_record n2 t1 kB = (Inr u2, t2)"
    and a1: "add_record n3 t2 k1 p1 = (Inr i1, t3)"
    and a2: "add_record n4 t3 k2 p2 = (Inr i2, t4)"
  shows "i1 = rB \<and> i2 = rA"
proof -
  from delete_record_effect[OF ip dA] lA have
    eA: "0 \<le> rA" "index_present t1" "free_head (hdr t1) = rA"
    by auto
  from delete_record_effect[OF eA(2) dB] lB obtain b where
    eB: "0 \<le> rB" "index_present t2" "free_head (hdr t2) = rB" "pad_off t2 = pad_off t1"
        "rsize t2 = rsize t1" "index_slots (hdr t2) = index_slots (hdr t1)"
        "pack_i (free_head (hdr t1)) = Inr b"
        "take 4 (drop (nat (record_ofs t1 rB + int (pad_off t1))) (fbytes t2)) = b"
    by auto
  from add_record_effect[OF eB(2) a1] obtain t2' where
    e1: "alloc_rec_index t2 = (Inr i1, t2')" "index_present t3" "free_head (hdr t3) = free_head (hdr t2')"
    by auto
  have ne: "free_head (hdr t2) \<noteq> - 1" using eB(1,3) by simp
  from alloc_rec_index_Inr[OF e1(1)] ne obtain b' where
    i1: "i1 = rB" and rd: "file_read (fbytes t2) (record_ofs t2 i1 + int (pad_off t2)) 4 = Inr b'"
    and t2': "t2' = t2\<lparr>hdr := (hdr t2)\<lparr>free_head := unpack_i b'\<rparr>\<rparr>"
    using eB(3) by auto
  have ro: "record_ofs t2 rB = record_ofs t1 rB"
    using eB(5,6) by (simp add: record_ofs_def records_region_ofs_def)
  have "0 \<le> record_ofs t1 rB + int (pad_off t1)"
    using eB(1) eA(2) by (simp add: record_ofs_def records_region_ofs_def index_present_def
        HEADER_SIZE_def INDEX_SLOT_SIZE_def)
  then have "b' = b" using rd eB(8) i1 ro eB(4) by (simp add: file_read_def)
  then have "unpack_i b' = rA" using unpack_i_pack_i[OF eB(7)] eA(3) by simp
  then have fh3: "free_head (hdr t3) = rA" using e1(3) t2' by simp
  from add_record_effect[OF e1(2) a2] obtain t3' where
    e2: "alloc_rec_index t3 = (Inr i2, t3')" by auto
  have "free_head (hdr t3) \<noteq> - 1" using fh3 eA(1) by simp
  with alloc_rec_index_Inr[OF e2] have "i2 = rA" using fh3 by auto
  with i1 show ?thesis by simp
qed

text \<open>The theorem at a concrete table: a Cars table with four index slots holding
  keys 1 and 2 in records 0 and 1.\<close>

theorem free_list_lifo_witness:
  "\<exists>t t1 t2 t3 t4 i1 i2.
     index_present t \<and> lookup t 1 = Inr (Some 0) \<and> delete_record 7 t 1 = (Inr (), t1)
     \<and> lookup t1 2 = Inr (Some 1) \<and> delete_record 7 t1 2 = (Inr (), t2)
     \<and> add_record 7 t2 3 (blank_record 128) = (Inr i1, t3)
     \<and> add_record 7 t3 4 (blank_record 128) = (Inr i2, t4)
     \<and> i1 = 1 \<and> i2 = 0"
proof -
  have "\<exists>t t1 t2 t3 t4 i1 i2.
     t = snd (run_calls 7 (fresh_table 7 (Cars 4)) [Add 1 (blank_record 128), Add 2 (blank_record 128)])
     \<and> index_present t \<and> lookup t 1 = Inr (Some 0) \<and> delete_record 7 t 1 = (Inr (), t1)
     \<and> lookup t1 2 = Inr (Some 1) \<and> delete_record 7 t1 2 = (Inr (), t2)
     \<and> add_record 7 t2 3 (blank_record 128) = (Inr i1, t3)
     \<and> add_record 7 t3 4 (blank_record 128) = (Inr i2, t4)"
    by (simp add: run_simps index_present_def records_region_layout length_fbytes_layout)
  then obtain t t1 t2 t3 t4 i1 i2 where
    ip: "index_present t" and lA: "lookup t 1 = Inr (Some 0)"
    and dA: "delete_record 7 t 1 = (Inr (), t1)"
    and lB: "lookup t1 2 = Inr (Some 1)" and dB: "delete_record 7 t1 2 = (Inr (), t2)"
    and ad1: "add_record 7 t2 3 (blank_record 128) = (Inr i1, t3)"
    and ad2: "add_record 7 t3 4 (blank_record 128) = (Inr i2, t4)"
    by (elim exE conjE)
  from free_list_lifo[OF ip lA dA lB dB ad1 ad2] have r: "i1 = 1" "i2 = 0" by simp_all
  show ?thesis
    using ip lA dA lB dB ad1 ad2 r by (intro exI[of _ t] exI[of _ t1] exI[of _ t2] exI[of _ t3] exI[of _ t4] exI[of _ i1] exI[of _ i2]) simp
qed

text \<open>
  Claim C1 (tombstone reuse under a full index). The code at the claim's scenario: on a
  fresh Cars table with four index slots, the adds of keys 1, 2, 3 and 4 succeed and
  fill the index, key 2 sits in slot 2, and deleting key 2 succeeds. The add of key 5
  then raises \<open>RuntimeError('index full')\<close>: slot 2 still holds the tombstone, key 5
  is not found afterwards, and the record of key 5 has been written over record 1.
\<close>

theorem full_index_tombstone_not_reused:
  "open_new 1000 (Cars 4) = Inr (fresh_table 1000 (Cars 4)) \<and>
   (\<exists>t4 t5 t6.
      run_calls 1001 (fresh_table 1000 (Cars 4))
        [Add 1 (blank_record 128), Add 2 (blank_record 128), Add 3 (blank_record 128),
         Add 4 (blank_record 128)]
        = ([Inr (Some 0), Inr (Some 1), Inr (Some 2), Inr (Some 3)], t4)
      \<and> read_slot t4 2 = Inr \<lparr>key = 2, rec_index = 1\<rparr>
      \<and> delete_record 1001 t4 2 = (Inr (), t5)
      \<and> read_slot t5 2 = Inr \<lparr>key = TOMBSTONE_KEY, rec_index = 0\<rparr>
      \<and> add_record 1001 t5 5 (5 # replicate 127 0) = (Inl IndexFull, t6)
      \<and> read_slot t6 2 = Inr \<lparr>key = TOMBSTONE_KEY, rec_index = 0\<rparr>
      \<and> lookup t6 5 = Inr None \<and> lookup t6 2 = Inr None
      \<and> read_raw t6 1 = Inr (5 # replicate 127 0))"
  by (simp add: open_new_fresh_table run_simps)

lemma read_raw_alt:
  "0 \<le> record_ofs t r \<Longrightarrow> read_raw t r = Inr (take (rsize t) (drop (nat (record_ofs t r)) (fbytes t)))"
  by (simp add: read_raw_def file_read_def)

lemma record_ofs_nonneg:
  "index_present t \<Longrightarrow> 0 \<le> r \<Longrightarrow> records_region_ofs t \<le> record_ofs t r \<and> 128 \<le> record_ofs t r"
  by (simp add: record_ofs_def index_present_def records_region_ofs_def HEADER_SIZE_def INDEX_SLOT_SIZE_def)

text \<open>A write inside record \<open>ri\<close> leaves every other record as it was, when the file
  holds record \<open>ri\<close>.\<close>

lemma write_in_record_other:
  assumes ip: "index_present t" and r: "0 \<le> r" "0 \<le> ri" "r \<noteq> ri"
    and inside: "po + length d \<le> rsize t"
    and holds: "record_ofs t ri + int (rsize t) \<le> int (length (fbytes t))"
  shows "take (rsize t) (drop (nat (record_ofs t r)) (write_at (fbytes t) (nat (record_ofs t ri) + po) d))
         = take (rsize t) (drop (nat (record_ofs t r)) (fbytes t))"
proof (cases "r < ri")
  case True
  then have "r + 1 \<le> ri" by simp
  then have "(r + 1) * int (rsize t) \<le> ri * int (rsize t)" by (intro mult_right_mono) simp_all
  then have le: "record_ofs t r + int (rsize t) \<le> record_ofs t ri"
    by (simp add: record_ofs_def algebra_simps)
  have "nat (record_ofs t r) + rsize t \<le> nat (record_ofs t ri) + po"
    "nat (record_ofs t r) + rsize t \<le> length (fbytes t)"
    using le holds record_ofs_nonneg[OF ip r(1)] record_ofs_nonneg[OF ip r(2)] by linarith+
  then show ?thesis by (rule read_below_write_at)
next
  case False
  then have "ri + 1 \<le> r" using r(3) by simp
  then have "(ri + 1) * int (rsize t) \<le> r * int (rsize t)" by (intro mult_right_mono) simp_all
  then have le: "record_ofs t ri + int (rsize t) \<le> record_ofs t r"
    by (simp add: record_ofs_def algebra_simps)
  have "nat (record_ofs t ri) + po + length d \<le> nat (record_ofs t r)"
    using le inside record_ofs_nonneg[OF ip r(1)] record_ofs_nonneg[OF ip r(2)] by linarith
  then show ?thesis by (simp add: read_above_write_at)
qed

lemma delete_record_other_records:
  assumes ip: "index_present t" and pad: "pad_off t + 4 \<le> rsize t"
    and lk: "lookup t k = Inr (Some ri)" and d: "delete_record now t k = (Inr u, t')"
    and r: "0 \<le> r" "r \<noteq> ri"
  shows "read_raw t' r = read_raw t r"
proof -
  from delete_record_steps[OF d] lk obtain raw t1 t2 t4 where
    rr: "read_raw t ri = Inr raw" and rne: "raw \<noteq> []" and
    w1: "write_raw t ri (raw[0 := 0]) = Inr t1" and
    w2: "write_next_free t1 ri (free_head (hdr t1)) = Inr t2" and
    ts: "tombstone_slot (t2\<lparr>hdr := (hdr t2)\<lparr>free_head := ri\<rparr>\<rparr>) k = Inr t4" and
    wh: "write_header now (t4\<lparr>hdr := (hdr t4)\<lparr>active_count := active_count (hdr t4) - 1,
                                   deleted_count := deleted_count (hdr t4) + 1\<rparr>\<rparr>) = (Inr u, t')"
    by auto
  from delete_record_effect[OF ip d] lk obtain sj where
    ri0: "0 \<le> ri" and sj: "0 \<le> sj" "sj < index_slots (hdr t)"
    and sk: "\<exists>sl. read_slot t sj = Inr sl \<and> key sl = k"
    and n': "index_slots (hdr t') = index_slots (hdr t)" "rsize t' = rsize t"
    by auto
  let ?o = "nat (record_ofs t r)"
  let ?oi = "nat (record_ofs t ri)"
  have onn: "0 \<le> record_ofs t ri" "0 \<le> record_ofs t r"
    using record_ofs_nonneg[OF ip ri0] record_ofs_nonneg[OF ip r(1)] by simp_all
  have lraw: "length raw = rsize t" using w1 by (simp add: write_raw_def split: if_splits)
  have raw: "raw = take (rsize t) (drop ?oi (fbytes t))" using rr onn by (simp add: read_raw_alt)
  have "length raw = min (rsize t) (length (fbytes t) - ?oi)" unfolding raw by simp
  moreover have "0 < length raw" using rne by simp
  ultimately have "?oi + rsize t \<le> length (fbytes t)" using lraw by linarith
  then have holds: "record_ofs t ri + int (rsize t) \<le> int (length (fbytes t))"
    using onn by linarith
  have t1: "t1 = t\<lparr>fbytes := write_at (fbytes t) (?oi + 0) (raw[0 := 0])\<rparr>"
    using w1 onn by (simp add: write_raw_def file_write_def split: if_splits)
  have e1: "take (rsize t) (drop ?o (fbytes t1)) = take (rsize t) (drop ?o (fbytes t))"
    unfolding t1 using write_in_record_other[OF ip r(1) ri0 r(2), of 0 "raw[0 := 0]"] lraw holds by simp
  from write_raw_frame[OF ip ri0 w1] have
    f1: "index_present t1" "hdr t1 = hdr t" "rsize t1 = rsize t" "pad_off t1 = pad_off t"
    by simp_all
  have ro1: "record_ofs t1 x = record_ofs t x" for x
    using f1 by (simp add: record_ofs_def records_region_ofs_def)
  have len1: "length (fbytes t) \<le> length (fbytes t1)" unfolding t1 by (simp add: length_write_at_ge)
  obtain b where b: "pack_i (free_head (hdr t1)) = Inr b"
    and t2: "t2 = t1\<lparr>fbytes := write_at (fbytes t1) (nat (record_ofs t1 ri) + pad_off t1) b\<rparr>"
    using w2 onn by (auto simp: write_next_free_def file_write_def ro1 nat_add_distrib
        split: if_splits sum.splits)
  have lb: "length b = 4" by (rule length_pack_i[OF b])
  have e2: "take (rsize t) (drop ?o (fbytes t2)) = take (rsize t) (drop ?o (fbytes t1))"
    unfolding t2 using write_in_record_other[OF f1(1) r(1) ri0 r(2), of "pad_off t1" b] lb pad f1 holds len1
    by (simp add: ro1)
  from write_next_free_frame[OF f1(1) ri0 w2] have
    f2: "index_present t2" "hdr t2 = hdr t1" "rsize t2 = rsize t1" "same_index t1 t2"
    by simp_all
  let ?t3 = "t2\<lparr>hdr := (hdr t2)\<lparr>free_head := ri\<rparr>\<rparr>"
  have ip3: "index_present ?t3" using f2(1) by (simp add: index_present_hdr_upd)
  have reg3: "records_region_ofs ?t3 = records_region_ofs t"
    using f2(2) f1(2) by (simp add: records_region_ofs_def)
  have oreg: "nat (records_region_ofs t) \<le> ?o" "128 \<le> ?o"
    using record_ofs_nonneg[OF ip r(1)] by linarith+
  have e4: "drop ?o (fbytes t4) = drop ?o (fbytes ?t3)"
  proof (cases "slot_of_key ?t3 k")
    case (Inl e)
    then show ?thesis using ts by (simp add: tombstone_slot_def)
  next
    case (Inr so)
    show ?thesis
    proof (cases so)
      case None
      then show ?thesis using ts Inr by (simp add: tombstone_slot_def)
    next
      case (Some s)
      then have ws: "write_slot ?t3 s \<lparr>key = TOMBSTONE_KEY, rec_index = 0\<rparr> = Inr t4"
        using ts Inr by (simp add: tombstone_slot_def)
      have n3: "index_slots (hdr ?t3) \<noteq> 0" using Inr by (auto simp: slot_of_key_def hash_def split: if_splits)
      then have npos: "0 < index_slots (hdr ?t3)" using ip3 by (simp add: index_present_def)
      have "\<exists>i. s = (k mod index_slots (hdr ?t3) + i) mod index_slots (hdr ?t3)"
      proof -
        have "\<And>is. slot_of_key_loop ?t3 k st is = Inr (Some s) \<Longrightarrow> \<exists>i. s = (st + i) mod index_slots (hdr ?t3)" for st
        proof -
          fix "is" show "slot_of_key_loop ?t3 k st is = Inr (Some s) \<Longrightarrow> \<exists>i. s = (st + i) mod index_slots (hdr ?t3)"
            by (induction "is") (auto simp: Let_def split: sum.splits if_splits)
        qed
        then show ?thesis using Inr Some n3 by (simp add: slot_of_key_def hash_def)
      qed
      then have sr: "0 \<le> s" "s < index_slots (hdr ?t3)" using npos by auto
      from write_slot_effect[OF ip3 sr ws] oreg reg3 show ?thesis by simp
    qed
  qed
  have ip4: "index_present t4"
  proof -
    have "length (fbytes ?t3) \<le> length (fbytes t4)" "hdr t4 = hdr ?t3"
      using ts by (auto simp: tombstone_slot_def write_slot_def file_write_def length_write_at_ge
          split: sum.splits option.splits if_splits)
    then show ?thesis using ip3 by (simp add: index_present_def records_region_ofs_def)
  qed
  let ?t5 = "t4\<lparr>hdr := (hdr t4)\<lparr>active_count := active_count (hdr t4) - 1,
                                deleted_count := deleted_count (hdr t4) + 1\<rparr>\<rparr>"
  have ip5: "index_present ?t5" using ip4 by (simp add: index_present_hdr_upd)
  from write_header_frame[OF ip5 wh] oreg have e5: "drop ?o (fbytes t') = drop ?o (fbytes t4)" by simp
  have "take (rsize t) (drop ?o (fbytes t')) = take (rsize t) (drop ?o (fbytes t))"
    using e5 e4 e2 e1 by simp
  moreover have "record_ofs t' r = record_ofs t r"
    using n' by (simp add: record_ofs_def records_region_ofs_def)
  ultimately show ?thesis using onn n' by (simp add: read_raw_alt)
qed

text \<open>
  Claim C5 (tombstones do not break probe chains). In any table whose file holds its
  index region: if two different keys are both found, each with its own record, and
  the surviving key is not the tombstone value, then after a successful
  \<open>delete_record\<close> of the other key \<open>lookup\<close> of the surviving key returns the same
  record index and \<open>read_record\<close> the same record. This holds wherever the two keys sit,
  so also when they share a probe chain and the deleted key's slot, now a tombstone,
  lies before the surviving key's slot.
\<close>

theorem tombstone_keeps_probe_chain:
  assumes ip: "index_present t" and pad: "pad_off t + 4 \<le> rsize t"
    and l1: "lookup t k1 = Inr (Some r1)" and l2: "lookup t k2 = Inr (Some r2)"
    and ne: "k1 \<noteq> k2" "r1 \<noteq> r2" and nt: "k2 \<noteq> TOMBSTONE_KEY"
    and d: "delete_record now t k1 = (Inr u, t')"
  shows "lookup t' k2 = Inr (Some r2) \<and> read_record t' k2 = read_record t k2"
proof -
  from delete_record_effect[OF ip d] obtain sj sl where
    e: "0 \<le> sj" "sj < index_slots (hdr t)" "read_slot t sj = Inr sl" "key sl = k1" "k1 \<noteq> 0"
       "read_slot t' sj = Inr \<lparr>key = TOMBSTONE_KEY, rec_index = 0\<rparr>"
       "\<forall>j. 0 \<le> j \<and> j < index_slots (hdr t) \<and> j \<noteq> sj \<longrightarrow> read_slot t' j = read_slot t j"
       "index_slots (hdr t') = index_slots (hdr t)"
    by auto
  have n0: "0 \<le> index_slots (hdr t)" using ip by (simp add: index_present_def)
  have "lookup t' k2 = lookup t k2"
  proof (rule lookup_cong[OF e(8) n0])
    fix j assume j: "0 \<le> j" "j < index_slots (hdr t)"
    show "read_slot t' j = read_slot t j \<or>
          (\<exists>sl sl'. read_slot t j = Inr sl \<and> read_slot t' j = Inr sl' \<and> key sl \<noteq> 0 \<and> key sl \<noteq> k2
                     \<and> key sl' \<noteq> 0 \<and> key sl' \<noteq> k2)"
    proof (cases "j = sj")
      case True
      have "read_slot t j = Inr sl \<and> read_slot t' j = Inr \<lparr>key = TOMBSTONE_KEY, rec_index = 0\<rparr>
            \<and> key sl \<noteq> 0 \<and> key sl \<noteq> k2
            \<and> key \<lparr>key = TOMBSTONE_KEY, rec_index = 0\<rparr> \<noteq> 0
            \<and> key \<lparr>key = TOMBSTONE_KEY, rec_index = 0\<rparr> \<noteq> k2"
        using True e(3-6) ne(1) nt by (simp add: TOMBSTONE_KEY_def)
      then show ?thesis by (intro disjI2 exI)
    next
      case False
      then show ?thesis using e(7) j by simp
    qed
  qed
  then have lk: "lookup t' k2 = Inr (Some r2)" using l2 by simp
  have r20: "0 \<le> r2" using lookup_Some[OF l2] by simp
  from delete_record_other_records[OF ip pad l1 d r20] ne(2)
  have "read_raw t' r2 = read_raw t r2" by simp
  then show ?thesis using lk l2 by (simp add: read_record_def)
qed

text \<open>The theorem at two keys that collide: in a Cars table with four index slots, keys
  1 and 5 both hash to slot 1; key 5 sits in slot 2, behind key 1.\<close>

theorem tombstone_keeps_probe_chain_witness:
  "\<exists>t t'. index_present t \<and> pad_off t + 4 \<le> rsize t
     \<and> hash t 1 = hash t 5
     \<and> lookup t 1 = Inr (Some 0) \<and> lookup t 5 = Inr (Some 1)
     \<and> (1::int) \<noteq> 5 \<and> (0::int) \<noteq> 1 \<and> 5 \<noteq> TOMBSTONE_KEY
     \<and> delete_record 7 t 1 = (Inr (), t')
     \<and> read_slot t' 1 = Inr \<lparr>key = TOMBSTONE_KEY, rec_index = 0\<rparr>
     \<and> lookup t' 5 = Inr (Some 1) \<and> read_record t' 5 = read_record t 5"
proof -
  have "\<exists>t t'.
     t = snd (run_calls 7 (fresh_table 7 (Cars 4)) [Add 1 (blank_record 128), Add 5 (blank_record 128)])
     \<and> index_present t \<and> pad_off t + 4 \<le> rsize t \<and> hash t 1 = hash t 5
     \<and> lookup t 1 = Inr (Some 0) \<and> lookup t 5 = Inr (Some 1)
     \<and> delete_record 7 t 1 = (Inr (), t')
     \<and> read_slot t' 1 = Inr \<lparr>key = TOMBSTONE_KEY, rec_index = 0\<rparr>"
    by (simp add: run_simps index_present_def records_region_layout length_fbytes_layout)
  then obtain t t' where
    h: "index_present t" "pad_off t + 4 \<le> rsize t" "hash t 1 = hash t 5"
       "lookup t 1 = Inr (Some 0)" "lookup t 5 = Inr (Some 1)"
       "delete_record 7 t 1 = (Inr (), t')"
       "read_slot t' 1 = Inr \<lparr>key = TOMBSTONE_KEY, rec_index = 0\<rparr>"
    by (elim exE conjE)
  have n: "(1::int) \<noteq> 5" "(0::int) \<noteq> 1" "5 \<noteq> TOMBSTONE_KEY" by (simp_all add: TOMBSTONE_KEY_def)
  from tombstone_keeps_probe_chain[OF h(1,2,4,5) n h(6)]
  have "lookup t' 5 = Inr (Some 1) \<and> read_record t' 5 = read_record t 5" .
  then show ?thesis using h n by (intro exI[of _ t] exI[of _ t']) simp
qed

section \<open>The index invariant\<close>

lemma set_range_py: "set (range_py n) = {0..<n}"
proof (cases "0 \<le> n")
  case True
  have "set (range_py n) = int ` {0..<nat n}" by (simp add: range_py_def)
  also have "\<dots> = {0..<n}" using True by (simp add: image_int_atLeastLessThan)
  finally show ?thesis .
next
  case False
  then show ?thesis by (simp add: range_py_def)
qed

lemma unique_live_keys_alt:
  "unique_live_keys t \<longleftrightarrow>
     (\<forall>j1 j2. 0 \<le> j1 \<and> j1 < index_slots (hdr t) \<and> 0 \<le> j2 \<and> j2 < index_slots (hdr t)
        \<and> live_key (key_at t j1) \<and> key_at t j1 = key_at t j2 \<longrightarrow> j1 = j2)"
  by (auto simp: unique_live_keys_def set_range_py)

lemma probe_reaches_alt:
  "probe_reaches t \<longleftrightarrow>
     (\<forall>j i. 0 \<le> j \<and> j < index_slots (hdr t) \<and> live_key (key_at t j)
        \<and> 0 \<le> i \<and> i < (j - key_at t j) mod index_slots (hdr t)
        \<longrightarrow> key_at t ((key_at t j + i) mod index_slots (hdr t)) \<noteq> 0)"
  by (auto simp: probe_reaches_def set_range_py)

lemma probe_back: "0 < (n::int) \<Longrightarrow> 0 \<le> ij \<Longrightarrow> ij < n \<Longrightarrow> ((k + ij) mod n - k) mod n = ij"
proof -
  assume a: "0 < n" "0 \<le> ij" "ij < n"
  have "((k + ij) mod n - k) mod n = ((k + ij) - k) mod n" by (rule mod_diff_left_eq)
  then show ?thesis using a by simp
qed

lemma probe_forth: "0 < (n::int) \<Longrightarrow> 0 \<le> q \<Longrightarrow> q < n \<Longrightarrow> (k + (q - k) mod n) mod n = q"
proof -
  assume a: "0 < n" "0 \<le> q" "q < n"
  have "(k + (q - k) mod n) mod n = (k + (q - k)) mod n" by (rule mod_add_right_eq)
  then show ?thesis using a by simp
qed

lemma key_at_Inr: "read_slot t j = Inr sl \<Longrightarrow> key_at t j = key sl"
  by (simp add: key_at_def)

lemma inv_add:
  assumes ip: "index_present t" and u: "unique_live_keys t" and pr: "probe_reaches t"
    and a: "add_record now t k p = (Inr i, t')"
  shows "index_present t' \<and> unique_live_keys t' \<and> probe_reaches t'"
proof -
  let ?n = "index_slots (hdr t)"
  from add_record_effect[OF ip a] obtain j where
    fs: "find_slot_for_insert t k = Inr j" and jr: "0 \<le> j" "j < ?n"
    and rj: "read_slot t' j = Inr \<lparr>key = k, rec_index = i\<rparr>"
    and ro: "\<forall>j'. 0 \<le> j' \<and> j' < ?n \<and> j' \<noteq> j \<longrightarrow> read_slot t' j' = read_slot t j'"
    and ip': "index_present t'" and n': "index_slots (hdr t') = ?n"
    by (elim exE conjE)
  from find_slot_for_insert_Inr[OF fs ip] obtain i0 ij sl0 slj where
    npos: "0 < ?n" and k0: "k \<noteq> 0" and i0: "0 \<le> i0" "i0 < ?n" and ij: "0 \<le> ij" "ij \<le> i0"
    and A: "\<forall>i'. 0 \<le> i' \<and> i' < i0 \<longrightarrow>
             (\<exists>sl'. read_slot t ((k + i') mod ?n) = Inr sl' \<and> key sl' \<noteq> 0 \<and> key sl' \<noteq> k)"
    and B: "read_slot t ((k + i0) mod ?n) = Inr sl0" "key sl0 = 0"
    and C: "j = (k + ij) mod ?n"
    by (elim exE conjE)
  have KA: "key_at t ((k + i') mod ?n) \<noteq> 0 \<and> key_at t ((k + i') mod ?n) \<noteq> k"
    if "0 \<le> i'" "i' < i0" for i'
    using A that by (auto simp: key_at_def)
  have KB: "key_at t ((k + i0) mod ?n) = 0" using B by (simp add: key_at_def)
  have Kj: "key_at t' j = k" using rj by (simp add: key_at_def)
  have Ko: "key_at t' x = key_at t x" if "0 \<le> x" "x < ?n" "x \<noteq> j" for x
    using ro that by (simp add: key_at_def)
  have Knz: "key_at t' x \<noteq> 0" if "0 \<le> x" "x < ?n" "key_at t x \<noteq> 0" for x
    using Kj Ko[OF that(1,2)] k0 that(3) by (cases "x = j") simp_all
  have dj: "(j - k) mod ?n = ij" unfolding C using probe_back[OF npos ij(1)] ij(2) i0(2) by simp
  have no_other: False if q: "0 \<le> q" "q < ?n" "key_at t q = k" "live_key k" for q
  proof -
    let ?d = "(q - k) mod ?n"
    have d: "0 \<le> ?d" "?d < ?n" using npos by simp_all
    have qd: "(k + ?d) mod ?n = q" using probe_forth[OF npos q(1,2)] .
    have P: "\<forall>i. 0 \<le> i \<and> i < ?d \<longrightarrow> key_at t ((k + i) mod ?n) \<noteq> 0"
      using pr[unfolded probe_reaches_alt] q by auto
    consider "?d < i0" | "?d = i0" | "i0 < ?d" by linarith
    then show False
    proof cases
      case 1
      then show ?thesis using KA[OF d(1)] qd q(3) by simp
    next
      case 2
      then show ?thesis using KB qd q(3) k0 by simp
    next
      case 3
      then show ?thesis using P i0(1) KB by auto
    qed
  qed
  have U: "unique_live_keys t'"
    unfolding unique_live_keys_alt n'
  proof (intro allI impI)
    fix j1 j2
    assume h: "0 \<le> j1 \<and> j1 < ?n \<and> 0 \<le> j2 \<and> j2 < ?n \<and> live_key (key_at t' j1)
               \<and> key_at t' j1 = key_at t' j2"
    show "j1 = j2"
    proof (cases "j1 = j")
      case j1: True
      show ?thesis
      proof (cases "j2 = j")
        case True
        then show ?thesis using j1 by simp
      next
        case False
        then have "key_at t j2 = k" "live_key k" using h j1 Kj Ko[of j2] by auto
        then show ?thesis using no_other[of j2] h by simp
      qed
    next
      case j1: False
      show ?thesis
      proof (cases "j2 = j")
        case True
        then have "key_at t j1 = k" "live_key k" using h j1 Kj Ko[of j1] by auto
        then show ?thesis using no_other[of j1] h by simp
      next
        case False
        then show ?thesis using u[unfolded unique_live_keys_alt] h j1 Ko[of j1] Ko[of j2] by auto
      qed
    qed
  qed
  have P': "probe_reaches t'"
    unfolding probe_reaches_alt n'
  proof (intro allI impI)
    fix q i'
    assume h: "0 \<le> q \<and> q < ?n \<and> live_key (key_at t' q) \<and> 0 \<le> i'
               \<and> i' < (q - key_at t' q) mod ?n"
    let ?x = "(key_at t' q + i') mod ?n"
    have xr: "0 \<le> ?x" "?x < ?n" using npos by simp_all
    show "key_at t' ?x \<noteq> 0"
    proof (cases "q = j")
      case True
      then have "i' < i0" using h Kj dj ij by simp
      then have "key_at t ((k + i') mod ?n) \<noteq> 0" using KA h by simp
      then show ?thesis using Knz[OF xr] True Kj by simp
    next
      case False
      then have kq: "key_at t' q = key_at t q" using Ko h by simp
      then have "key_at t ((key_at t q + i') mod ?n) \<noteq> 0"
        using pr[unfolded probe_reaches_alt] h by auto
      then show ?thesis using Knz[OF xr] kq by simp
    qed
  qed
  show ?thesis using ip' U P' by simp
qed

lemma inv_delete:
  assumes ip: "index_present t" and u: "unique_live_keys t" and pr: "probe_reaches t"
    and d: "delete_record now t k = (Inr x, t')"
  shows "index_present t' \<and> unique_live_keys t' \<and> probe_reaches t'"
proof -
  let ?n = "index_slots (hdr t)"
  from delete_record_effect[OF ip d] obtain sj where
    sj: "0 \<le> sj" "sj < ?n"
    and rj: "read_slot t' sj = Inr \<lparr>key = TOMBSTONE_KEY, rec_index = 0\<rparr>"
    and ro: "\<forall>j. 0 \<le> j \<and> j < ?n \<and> j \<noteq> sj \<longrightarrow> read_slot t' j = read_slot t j"
    and ip': "index_present t'" and n': "index_slots (hdr t') = ?n"
    by (elim exE conjE)
  have npos: "0 < ?n" using sj by simp
  have Kj: "key_at t' sj = TOMBSTONE_KEY" using rj by (simp add: key_at_def)
  have nl: "\<not> live_key (key_at t' sj)" using Kj by (simp add: live_key_def)
  have Ko: "key_at t' x = key_at t x" if "0 \<le> x" "x < ?n" "x \<noteq> sj" for x
    using ro that by (simp add: key_at_def)
  have Knz: "key_at t' x \<noteq> 0" if "0 \<le> x" "x < ?n" "key_at t x \<noteq> 0" for x
    using Kj Ko[OF that(1,2)] that(3) by (cases "x = sj") (simp_all add: TOMBSTONE_KEY_def)
  have U: "unique_live_keys t'"
    unfolding unique_live_keys_alt n'
  proof (intro allI impI)
    fix j1 j2
    assume h: "0 \<le> j1 \<and> j1 < ?n \<and> 0 \<le> j2 \<and> j2 < ?n \<and> live_key (key_at t' j1)
               \<and> key_at t' j1 = key_at t' j2"
    then have "j1 \<noteq> sj" "j2 \<noteq> sj" using nl by auto
    then show "j1 = j2" using u[unfolded unique_live_keys_alt] h Ko[of j1] Ko[of j2] by auto
  qed
  have P': "probe_reaches t'"
    unfolding probe_reaches_alt n'
  proof (intro allI impI)
    fix q i'
    assume h: "0 \<le> q \<and> q < ?n \<and> live_key (key_at t' q) \<and> 0 \<le> i'
               \<and> i' < (q - key_at t' q) mod ?n"
    let ?x = "(key_at t' q + i') mod ?n"
    have xr: "0 \<le> ?x" "?x < ?n" using npos by simp_all
    have "q \<noteq> sj" using h nl by auto
    then have kq: "key_at t' q = key_at t q" using Ko h by simp
    then have "key_at t ((key_at t q + i') mod ?n) \<noteq> 0"
      using pr[unfolded probe_reaches_alt] h by auto
    then show "key_at t' ?x \<noteq> 0" using Knz[OF xr] kq by simp
  qed
  show ?thesis using ip' U P' by simp
qed

lemma Header_pack_in_range:
  assumes "Header_pack hr = Inr b" shows "header_in_range hr"
proof -
  from pack_fields_Inr[OF assms[unfolded Header_pack_def]]
  obtain bs where m: "[pack_s 4 (magic hr), pack_B (version hr), pack_B (endian hr),
                  pack_H (record_size hr), pack_I (created_at hr), pack_I (updated_at hr),
                  pack_I (next_id hr), pack_I (active_count hr), pack_I (deleted_count hr),
                  pack_i (free_head hr), pack_I (index_slots hr), pack_x 92] = map Inr bs"
    by (elim exE conjE)
  from m obtain b0 b1 b2 b3 b4 b5 b6 b7 b8 b9 b10 b11 where
    bs: "bs = [b0,b1,b2,b3,b4,b5,b6,b7,b8,b9,b10,b11]"
    by (auto simp: map_eq_Cons_conv)
  from m bs show ?thesis
    by (auto simp: header_in_range_def pack_B_def pack_H_def pack_I_def
             dest!: pack_uint_Inr pack_i_Inr)
qed

lemma read_slot_layout:
  assumes "length disk = 128" "0 \<le> j" "j < int (length sls)" "slot_in_range (sls ! nat j)"
  shows "read_slot (layout c hr disk sls recs) j = Inr (sls ! nat j)"
proof -
  have "nat (128 + j * 16) = length disk + nat j * 16 + 0" using assms(1,2) by simp
  then have "take 16 (drop (nat (128 + j * 16)) (disk @ concat (map slot_bytes sls) @ concat recs))
      = take 16 (drop 0 (map slot_bytes sls ! nat j))"
    using block_read[OF slots_uniform, of "nat j" sls 0 16 disk "concat recs"] assms(2,3) by simp
  then show ?thesis using assms(2,3,4)
    by (simp add: read_slot_alt layout_def IndexSlot_unpack_slot_bytes)
qed

lemma inv_fresh:
  assumes "open_new now c = Inr t"
  shows "index_present t \<and> unique_live_keys t \<and> probe_reaches t"
proof -
  let ?h = "Header_new (tmagic c) (int (rsize c)) (slots c) now"
  from assms obtain hb where "Header_pack ?h = Inr hb"
    by (auto simp: open_new_def Let_def split: sum.splits)
  then have hr: "header_in_range ?h" by (rule Header_pack_in_range)
  then have t: "t = fresh_table now c" using assms open_new_fresh_table by simp
  have s0: "0 \<le> slots c" using hr by (simp add: header_in_range_def Header_new_def)
  have n: "index_slots (hdr t) = slots c" by (simp add: t fresh_table_def Header_new_def)
  have len: "length (fbytes t) = 128 + nat (slots c) * 16"
    using length_concat_uniform[OF slots_uniform, of "replicate (nat (slots c)) \<lparr>key = 0, rec_index = 0\<rparr>"]
    by (simp add: t fresh_table_def layout_def)
  have ip: "index_present t" using s0 n len
    by (simp add: index_present_def records_region_ofs_def HEADER_SIZE_def INDEX_SLOT_SIZE_def)
  have K: "key_at t j = 0" if "0 \<le> j" "j < slots c" for j
  proof -
    have "read_slot t j = Inr \<lparr>key = 0, rec_index = 0\<rparr>"
      unfolding t fresh_table_def
      using read_slot_layout[of "header_bytes ?h" j "replicate (nat (slots c)) \<lparr>key = 0, rec_index = 0\<rparr>"] that
      by (simp add: slot_in_range_def)
    then show ?thesis by (simp add: key_at_def)
  qed
  have "unique_live_keys t" unfolding unique_live_keys_alt n using K by (auto simp: live_key_def)
  moreover have "probe_reaches t" unfolding probe_reaches_alt n using K by (auto simp: live_key_def)
  ultimately show ?thesis using ip by simp
qed

lemma reachable_inv:
  "reachable t \<Longrightarrow> index_present t \<and> unique_live_keys t \<and> probe_reaches t"
proof (induction rule: reachable.induct)
  case (fresh now c t)
  then show ?case by (rule inv_fresh)
next
  case (added t now k packed i t')
  then show ?case using inv_add by blast
next
  case (deleted t now k u t')
  then show ?case using inv_delete by blast
qed

text \<open>
  Claim C4 (key uniqueness). In every table reached from a freshly created one by
  successful calls of \<open>add_record\<close> and \<open>delete_record\<close>, no two index slots hold the
  same live key, a live key being one that is neither 0 nor the tombstone value.
\<close>

theorem reachable_unique_live_keys:
  assumes "reachable t"
  shows "unique_live_keys t"
  using reachable_inv[OF assms] by simp

text \<open>The theorem at a table reached through a tombstone: on a fresh Cars table with
  four index slots, keys 1 and 5 are added, key 1 is deleted and key 9 is added, which
  takes the tombstone in slot 1.\<close>

theorem reachable_unique_live_keys_witness:
  "\<exists>t. reachable t
     \<and> read_slot t 1 = Inr \<lparr>key = 9, rec_index = 0\<rparr>
     \<and> read_slot t 2 = Inr \<lparr>key = 5, rec_index = 1\<rparr>
     \<and> unique_live_keys t"
proof -
  have "\<exists>t0 t1 t2 t3 t4.
          open_new 7 (Cars 4) = Inr t0
          \<and> add_record 7 t0 1 (blank_record 128) = (Inr 0, t1)
          \<and> add_record 7 t1 5 (blank_record 128) = (Inr 1, t2)
          \<and> delete_record 7 t2 1 = (Inr (), t3)
          \<and> add_record 7 t3 9 (blank_record 128) = (Inr 0, t4)
          \<and> read_slot t4 1 = Inr \<lparr>key = 9, rec_index = 0\<rparr>
          \<and> read_slot t4 2 = Inr \<lparr>key = 5, rec_index = 1\<rparr>"
    by (simp add: open_new_fresh_table run_simps)
  then obtain t0 t1 t2 t3 t4 where
    s: "open_new 7 (Cars 4) = Inr t0"
       "add_record 7 t0 1 (blank_record 128) = (Inr 0, t1)"
       "add_record 7 t1 5 (blank_record 128) = (Inr 1, t2)"
       "delete_record 7 t2 1 = (Inr (), t3)"
       "add_record 7 t3 9 (blank_record 128) = (Inr 0, t4)"
    and r: "read_slot t4 1 = Inr \<lparr>key = 9, rec_index = 0\<rparr>"
           "read_slot t4 2 = Inr \<lparr>key = 5, rec_index = 1\<rparr>"
    by (elim exE conjE)
  have "reachable t0" using s(1) by (rule reachable.fresh)
  then have "reachable t1" using s(2) by (rule reachable.added)
  then have "reachable t2" using s(3) by (rule reachable.added)
  then have "reachable t3" using s(4) by (rule reachable.deleted)
  then have re: "reachable t4" using s(5) by (rule reachable.added)
  from reachable_unique_live_keys[OF re] re r show ?thesis by (intro exI[of _ t4]) simp
qed

lemma tombstoned_run:
  "\<exists>t ta ts.
     run_calls 7 (fresh_table 7 (Cars 4))
       [Add 1 (blank_record 128), Add 5 (blank_record 128), Delete 1]
       = ([Inr (Some 0), Inr (Some 1), Inr None], t)
     \<and> read_slot t 1 = Inr \<lparr>key = TOMBSTONE_KEY, rec_index = 0\<rparr>
     \<and> add_record 7 t 9 (blank_record 128) = (Inr 0, ta)
     \<and> seed_add_record 7 t 9 (blank_record 128) = (Inr 0, ts)
     \<and> read_slot ta 1 = Inr \<lparr>key = 9, rec_index = 0\<rparr>
     \<and> read_slot ts 1 = Inr \<lparr>key = TOMBSTONE_KEY, rec_index = 0\<rparr>
     \<and> read_slot ta 3 = Inr \<lparr>key = 0, rec_index = 0\<rparr>
     \<and> read_slot ts 3 = Inr \<lparr>key = 9, rec_index = 0\<rparr>"
  by (simp add: run_simps)

text \<open>
  Claim C2, as stated, fails: on \<open>tombstoned_table\<close>, a Cars table with four index
  slots in which key 1 was added, key 5 was added behind it and key 1 was deleted,
  adding key 9 with the application's \<open>add_record\<close> puts key 9 into the tombstoned slot 1, while the seeding
  tool's \<open>add_record\<close> leaves the tombstone and puts key 9 into the empty slot 3. Both
  calls succeed and return record 0; the files differ.
\<close>

theorem seed_insert_probe_differs:
  "fst (add_record 7 tombstoned_table 9 (blank_record 128)) = Inr 0
   \<and> fst (seed_add_record 7 tombstoned_table 9 (blank_record 128)) = Inr 0
   \<and> read_slot tombstoned_table 1 = Inr \<lparr>key = TOMBSTONE_KEY, rec_index = 0\<rparr>
   \<and> read_slot (snd (add_record 7 tombstoned_table 9 (blank_record 128))) 1
       = Inr \<lparr>key = 9, rec_index = 0\<rparr>
   \<and> read_slot (snd (seed_add_record 7 tombstoned_table 9 (blank_record 128))) 1
       = Inr \<lparr>key = TOMBSTONE_KEY, rec_index = 0\<rparr>
   \<and> read_slot (snd (seed_add_record 7 tombstoned_table 9 (blank_record 128))) 3
       = Inr \<lparr>key = 9, rec_index = 0\<rparr>
   \<and> fbytes (snd (add_record 7 tombstoned_table 9 (blank_record 128)))
       \<noteq> fbytes (snd (seed_add_record 7 tombstoned_table 9 (blank_record 128)))"
proof -
  from tombstoned_run obtain t ta ts where
    h: "run_calls 7 (fresh_table 7 (Cars 4))
          [Add 1 (blank_record 128), Add 5 (blank_record 128), Delete 1]
          = ([Inr (Some 0), Inr (Some 1), Inr None], t)"
       "read_slot t 1 = Inr \<lparr>key = TOMBSTONE_KEY, rec_index = 0\<rparr>"
       "add_record 7 t 9 (blank_record 128) = (Inr 0, ta)"
       "seed_add_record 7 t 9 (blank_record 128) = (Inr 0, ts)"
       "read_slot ta 1 = Inr \<lparr>key = 9, rec_index = 0\<rparr>"
       "read_slot ts 1 = Inr \<lparr>key = TOMBSTONE_KEY, rec_index = 0\<rparr>"
       "read_slot ta 3 = Inr \<lparr>key = 0, rec_index = 0\<rparr>"
       "read_slot ts 3 = Inr \<lparr>key = 9, rec_index = 0\<rparr>"
    by (elim exE conjE)
  have t: "tombstoned_table = t" using h(1) by (simp add: tombstoned_table_def)
  have "fbytes ta \<noteq> fbytes ts"
  proof
    assume "fbytes ta = fbytes ts"
    then have "read_slot ta 1 = read_slot ts 1" by (simp add: read_slot_def)
    then show False using h(5,6) by (simp add: TOMBSTONE_KEY_def)
  qed
  then show ?thesis using h(2-8) by (simp add: t)
qed

lemma range_py_Cons: "0 < n \<Longrightarrow> range_py n = 0 # map int [Suc 0..<nat n]"
  by (simp add: range_py_def upt_conv_Cons)

lemma lookup_first_probe:
  assumes "0 < index_slots (hdr t)"
  shows "lookup t k =
     (case read_slot t (k mod index_slots (hdr t)) of
        Inl e \<Rightarrow> Inl e
      | Inr sl \<Rightarrow>
          if key sl = 0 then Inr None
          else if key sl = k then Inr (Some (rec_index sl))
          else lookup_loop t k (k mod index_slots (hdr t)) (map int [Suc 0..<nat (index_slots (hdr t))]))"
  using assms by (simp add: lookup_def hash_def range_py_Cons Let_def)

lemma slot_of_key_first_probe:
  assumes "0 < index_slots (hdr t)"
  shows "slot_of_key t k =
     (case read_slot t (k mod index_slots (hdr t)) of
        Inl e \<Rightarrow> Inl e
      | Inr sl \<Rightarrow>
          if key sl = 0 then Inr None
          else if key sl = k then Inr (Some (k mod index_slots (hdr t)))
          else slot_of_key_loop t k (k mod index_slots (hdr t)) (map int [Suc 0..<nat (index_slots (hdr t))]))"
  using assms by (simp add: slot_of_key_def hash_def range_py_Cons Let_def)

lemma find_slot_first_probe:
  assumes "0 < index_slots (hdr t)"
  shows "find_slot_for_insert t k =
     (case read_slot t (k mod index_slots (hdr t)) of
        Inl e \<Rightarrow> Inl e
      | Inr sl \<Rightarrow>
          if key sl = k then Inl DuplicateKey
          else if key sl = 0 then Inr (k mod index_slots (hdr t))
          else find_slot_loop t k (k mod index_slots (hdr t))
                 (if key sl = TOMBSTONE_KEY then k mod index_slots (hdr t) else - 1)
                 (map int [Suc 0..<nat (index_slots (hdr t))]))"
  using assms by (auto simp: find_slot_for_insert_def hash_def range_py_Cons Let_def TOMBSTONE_KEY_def
      split: sum.splits)

lemma write_at_eq_Nil [simp]: "write_at fb ofs d = [] \<longleftrightarrow> fb = [] \<and> d = []"
  by (auto simp: write_at_def)

lemma pack_fields_Inl:
  assumes "\<forall>p \<in> set ps. (\<exists>b. p = Inr b) \<or> p = Inl StructError" "Inl StructError \<in> set ps"
  shows "pack_fields ps = Inl StructError"
  using assms
proof (induction ps rule: pack_fields.induct)
  case 1
  then show ?case by simp
next
  case (2 e ps)
  then show ?case by auto
next
  case (3 b ps)
  then show ?case by (auto split: sum.splits)
qed

lemma pack_uint_cases: "(\<exists>b. pack_uint n v = Inr b) \<or> pack_uint n v = Inl StructError"
  by (simp add: pack_uint_def)

lemma Header_pack_out_of_range:
  assumes "\<not> header_in_range hr"
  shows "Header_pack hr = Inl StructError"
  unfolding Header_pack_def
proof (rule pack_fields_Inl)
  show "\<forall>p\<in>set [pack_s 4 (magic hr), pack_B (version hr), pack_B (endian hr),
                  pack_H (record_size hr), pack_I (created_at hr), pack_I (updated_at hr),
                  pack_I (next_id hr), pack_I (active_count hr), pack_I (deleted_count hr),
                  pack_i (free_head hr), pack_I (index_slots hr), pack_x 92].
          (\<exists>b. p = Inr b) \<or> p = Inl StructError"
    by (simp add: pack_s_def pack_x_def pack_B_def pack_H_def pack_I_def pack_uint_def pack_i_def)
  show "Inl StructError \<in> set [pack_s 4 (magic hr), pack_B (version hr), pack_B (endian hr),
                  pack_H (record_size hr), pack_I (created_at hr), pack_I (updated_at hr),
                  pack_I (next_id hr), pack_I (active_count hr), pack_I (deleted_count hr),
                  pack_i (free_head hr), pack_I (index_slots hr), pack_x 92]"
    using assms
    by (auto simp: header_in_range_def pack_B_def pack_H_def pack_I_def pack_uint_def pack_i_def)
qed

lemma sim_write_header_fail:
  assumes "\<not> header_in_range (hr\<lparr>updated_at := now\<rparr>)"
  shows "write_header now (layout c hr disk sls recs)
         = (Inl StructError, layout c (hr\<lparr>updated_at := now\<rparr>) disk sls recs)"
  by (simp add: write_header_def Let_def Header_pack_out_of_range[OF assms])

lemmas first_probe_simps =
  add_record_def delete_record_def tombstone_slot_def read_record_def
  sim_alloc_fresh sim_alloc_pop sim_write_raw_new sim_write_raw sim_read_raw
  sim_read_slot sim_write_slot sim_write_header sim_write_header_fail sim_write_next_free
  layout_ok_def fresh_table_def Header_new_def slot_in_range_def header_in_range_def
  lookup_first_probe slot_of_key_first_probe find_slot_first_probe TOMBSTONE_KEY_def
  Customers_def CUST_SIZE_def CUST_PAD_def
  list_all_replicate_iff list_all_update_iff
  length_write_at read_back_write_at_n unpack_i_le_bytes

lemma sentinel_run_example:
  "\<exists>t0 t1 t2 t3 raw.
     open_new 7 (Customers 1024) = Inr t0
     \<and> add_record 7 t0 1023 (blank_record 128) = (Inr 0, t1)
     \<and> delete_record 7 t1 1023 = (Inr (), t2)
     \<and> read_slot t2 1023 = Inr \<lparr>key = TOMBSTONE_KEY, rec_index = 0\<rparr>
     \<and> read_raw t2 0 = Inr raw \<and> raw \<noteq> []
     \<and> read_record t2 TOMBSTONE_KEY = Inr (Some raw)
     \<and> delete_record 7 t2 TOMBSTONE_KEY = (Inl StructError, t3)
     \<and> active_count (hdr t2) = 0 \<and> active_count (hdr t3) = - 1
     \<and> deleted_count (hdr t2) = 1 \<and> deleted_count (hdr t3) = 2
     \<and> free_head (hdr t3) = 0"
  by (simp add: open_new_fresh_table first_probe_simps)

lemma sentinel_run:
  "\<exists>t0 t1 t2 t3 t4 raw.
     open_new 7 (Customers 1024) = Inr t0
     \<and> add_record 7 t0 1 (blank_record 128) = (Inr 0, t1)
     \<and> add_record 7 t1 1023 (blank_record 128) = (Inr 1, t2)
     \<and> delete_record 7 t2 1023 = (Inr (), t3)
     \<and> index_slots (hdr t3) = 1024
     \<and> hash t3 TOMBSTONE_KEY = Inr 1023
     \<and> read_slot t3 1023 = Inr \<lparr>key = TOMBSTONE_KEY, rec_index = 0\<rparr>
     \<and> read_raw t3 0 = Inr raw \<and> raw \<noteq> []
     \<and> read_record t3 1 = Inr (Some raw)
     \<and> read_record t3 TOMBSTONE_KEY = Inr (Some raw)
     \<and> delete_record 7 t3 TOMBSTONE_KEY = (Inr (), t4)
     \<and> active_count (hdr t3) = 1 \<and> active_count (hdr t4) = 0
     \<and> deleted_count (hdr t3) = 1 \<and> deleted_count (hdr t4) = 2
     \<and> free_head (hdr t3) = 1 \<and> free_head (hdr t4) = 0"
  by (simp add: open_new_fresh_table first_probe_simps hash_def)

text \<open>
  Claim C9 (the lookup probe cannot tell the tombstone value from a key). There is a
  table reached from a fresh customers table with 1024 index slots, in which key 1023
  was added and deleted, so that slot 1023, the hash slot of \<open>0xFFFFFFFF\<close>, holds a
  tombstone with record index 0, where \<open>read_record(0xFFFFFFFF)\<close> returns the raw bytes
  of record 0 and \<open>delete_record(0xFFFFFFFF)\<close> succeeds, lowering \<open>active_count\<close>,
  raising \<open>deleted_count\<close> and making record 0 the free-list head. In that table key 1
  had been added first and record 0 is its record. When key 1023 is the only key ever
  added, \<open>read_record(0xFFFFFFFF)\<close> returns record 0 just the same, and
  \<open>delete_record(0xFFFFFFFF)\<close> passes the lookup and changes the counters and the free
  list in memory, but then raises \<open>struct.error\<close> when it packs the header, because
  \<open>active_count\<close> has become \<open>-1\<close>.
\<close>

theorem sentinel_key_is_found:
  "(\<exists>t raw t'.
      reachable t \<and> index_slots (hdr t) = 1024
      \<and> hash t TOMBSTONE_KEY = Inr 1023
      \<and> read_slot t 1023 = Inr \<lparr>key = TOMBSTONE_KEY, rec_index = 0\<rparr>
      \<and> read_raw t 0 = Inr raw \<and> raw \<noteq> []
      \<and> read_record t TOMBSTONE_KEY = Inr (Some raw)
      \<and> delete_record 7 t TOMBSTONE_KEY = (Inr (), t')
      \<and> active_count (hdr t') = active_count (hdr t) - 1
      \<and> deleted_count (hdr t') = deleted_count (hdr t) + 1
      \<and> free_head (hdr t) = 1 \<and> free_head (hdr t') = 0)
   \<and> (\<exists>t0 t1 t2 t3 raw.
      open_new 7 (Customers 1024) = Inr t0
      \<and> add_record 7 t0 1023 (blank_record 128) = (Inr 0, t1)
      \<and> delete_record 7 t1 1023 = (Inr (), t2)
      \<and> read_raw t2 0 = Inr raw \<and> raw \<noteq> []
      \<and> read_record t2 TOMBSTONE_KEY = Inr (Some raw)
      \<and> delete_record 7 t2 TOMBSTONE_KEY = (Inl StructError, t3)
      \<and> active_count (hdr t2) = 0 \<and> active_count (hdr t3) = - 1
      \<and> deleted_count (hdr t2) = 1 \<and> deleted_count (hdr t3) = 2
      \<and> free_head (hdr t3) = 0)"
proof (rule conjI)
  from sentinel_run obtain t0 t1 t2 t3 t4 raw where
    s: "open_new 7 (Customers 1024) = Inr t0"
       "add_record 7 t0 1 (blank_record 128) = (Inr 0, t1)"
       "add_record 7 t1 1023 (blank_record 128) = (Inr 1, t2)"
       "delete_record 7 t2 1023 = (Inr (), t3)"
    and n: "index_slots (hdr t3) = 1024"
    and h: "hash t3 TOMBSTONE_KEY = Inr 1023"
       "read_slot t3 1023 = Inr \<lparr>key = TOMBSTONE_KEY, rec_index = 0\<rparr>"
       "read_raw t3 0 = Inr raw" "raw \<noteq> []"
       "read_record t3 TOMBSTONE_KEY = Inr (Some raw)"
       "delete_record 7 t3 TOMBSTONE_KEY = (Inr (), t4)"
       "active_count (hdr t3) = 1" "active_count (hdr t4) = 0"
       "deleted_count (hdr t3) = 1" "deleted_count (hdr t4) = 2"
       "free_head (hdr t3) = 1" "free_head (hdr t4) = 0"
    by (elim exE conjE)
  have "reachable t0" using s(1) by (rule reachable.fresh)
  then have "reachable t1" using s(2) by (rule reachable.added)
  then have "reachable t2" using s(3) by (rule reachable.added)
  then have re: "reachable t3" using s(4) by (rule reachable.deleted)
  show "\<exists>t raw t'.
      reachable t \<and> index_slots (hdr t) = 1024
      \<and> hash t TOMBSTONE_KEY = Inr 1023
      \<and> read_slot t 1023 = Inr \<lparr>key = TOMBSTONE_KEY, rec_index = 0\<rparr>
      \<and> read_raw t 0 = Inr raw \<and> raw \<noteq> []
      \<and> read_record t TOMBSTONE_KEY = Inr (Some raw)
      \<and> delete_record 7 t TOMBSTONE_KEY = (Inr (), t')
      \<and> active_count (hdr t') = active_count (hdr t) - 1
      \<and> deleted_count (hdr t') = deleted_count (hdr t) + 1
      \<and> free_head (hdr t) = 1 \<and> free_head (hdr t') = 0"
    using re n h by (intro exI[of _ t3] exI[of _ raw] exI[of _ t4]) simp
next
  from sentinel_run_example obtain t0 t1 t2 t3 raw where
    "open_new 7 (Customers 1024) = Inr t0"
    "add_record 7 t0 1023 (blank_record 128) = (Inr 0, t1)"
    "delete_record 7 t1 1023 = (Inr (), t2)"
    "read_raw t2 0 = Inr raw" "raw \<noteq> []"
    "read_record t2 TOMBSTONE_KEY = Inr (Some raw)"
    "delete_record 7 t2 TOMBSTONE_KEY = (Inl StructError, t3)"
    "active_count (hdr t2) = 0" "active_count (hdr t3) = - 1"
    "deleted_count (hdr t2) = 1" "deleted_count (hdr t3) = 2"
    "free_head (hdr t3) = 0"
    by (elim exE conjE)
  then show "\<exists>t0 t1 t2 t3 raw.
      open_new 7 (Customers 1024) = Inr t0
      \<and> add_record 7 t0 1023 (blank_record 128) = (Inr 0, t1)
      \<and> delete_record 7 t1 1023 = (Inr (), t2)
      \<and> read_raw t2 0 = Inr raw \<and> raw \<noteq> []
      \<and> read_record t2 TOMBSTONE_KEY = Inr (Some raw)
      \<and> delete_record 7 t2 TOMBSTONE_KEY = (Inl StructError, t3)
      \<and> active_count (hdr t2) = 0 \<and> active_count (hdr t3) = - 1
      \<and> deleted_count (hdr t2) = 1 \<and> deleted_count (hdr t3) = 2
      \<and> free_head (hdr t3) = 0"
    by (intro exI[of _ t0] exI[of _ t1] exI[of _ t2] exI[of _ t3] exI[of _ raw]) simp
qed

section \<open>The two insert probes\<close>

lemma read_slot_present:
  assumes "index_present t" "0 \<le> j" "j < index_slots (hdr t)"
  shows "\<exists>sl. read_slot t j = Inr sl"
proof -
  have "nat (128 + j * 16) + 16 \<le> length (fbytes t)"
    using assms by (auto simp: index_present_def records_region_ofs_def HEADER_SIZE_def INDEX_SLOT_SIZE_def)
  then have "length (take 16 (drop (nat (128 + j * 16)) (fbytes t))) = 16" by simp
  then show ?thesis using assms(2) by (simp add: read_slot_alt IndexSlot_unpack_def)
qed

lemma seed_loop_stop:
  assumes "\<And>i. i \<in> set is \<Longrightarrow> \<exists>sl. read_slot t ((start + i) mod index_slots (hdr t)) = Inr sl"
  shows "(case seed_find_slot_loop t k start is of
            Inl e \<Rightarrow> Inl e
          | Inr (slot, Some cur) \<Rightarrow> Inl DuplicateKey
          | Inr (slot, None) \<Rightarrow> Inr slot)
       = (case dropWhile (\<lambda>j. key_at t j \<noteq> 0 \<and> key_at t j \<noteq> k)
                 (map (\<lambda>i. (start + i) mod index_slots (hdr t)) is) of
            [] \<Rightarrow> Inl IndexFull
          | s # rest \<Rightarrow> if key_at t s = 0 then Inr s else Inl DuplicateKey)"
  using assms
proof (induction "is")
  case Nil
  then show ?case by simp
next
  case (Cons i "is")
  let ?j = "(start + i) mod index_slots (hdr t)"
  from Cons.prems[of i] obtain sl where sl: "read_slot t ?j = Inr sl" by auto
  have ka: "key_at t ?j = key sl" using sl by (simp add: key_at_def)
  have ih: "(case seed_find_slot_loop t k start is of
            Inl e \<Rightarrow> Inl e
          | Inr (slot, Some cur) \<Rightarrow> Inl DuplicateKey
          | Inr (slot, None) \<Rightarrow> Inr slot)
       = (case dropWhile (\<lambda>j. key_at t j \<noteq> 0 \<and> key_at t j \<noteq> k)
                 (map (\<lambda>i. (start + i) mod index_slots (hdr t)) is) of
            [] \<Rightarrow> Inl IndexFull
          | s # rest \<Rightarrow> if key_at t s = 0 then Inr s else Inl DuplicateKey)"
    using Cons.IH Cons.prems by simp
  show ?case using sl ka ih by (simp add: Let_def)
qed

lemma find_loop_stop:
  assumes "\<And>i. i \<in> set is \<Longrightarrow> \<exists>sl. read_slot t ((start + i) mod index_slots (hdr t)) = Inr sl"
    and "0 < index_slots (hdr t)"
  shows "find_slot_loop t k start ft is
       = (case dropWhile (\<lambda>j. key_at t j \<noteq> 0 \<and> key_at t j \<noteq> k)
                 (map (\<lambda>i. (start + i) mod index_slots (hdr t)) is) of
            [] \<Rightarrow> Inl IndexFull
          | s # rest \<Rightarrow>
              if key_at t s = k then Inl DuplicateKey
              else Inr (if 0 \<le> ft then ft
                        else case List.find (\<lambda>j. key_at t j = TOMBSTONE_KEY)
                                    (takeWhile (\<lambda>j. key_at t j \<noteq> 0 \<and> key_at t j \<noteq> k)
                                       (map (\<lambda>i. (start + i) mod index_slots (hdr t)) is)) of
                               None \<Rightarrow> s
                             | Some f \<Rightarrow> f))"
  using assms(1)
proof (induction "is" arbitrary: ft)
  case Nil
  then show ?case by simp
next
  case (Cons i "is")
  let ?j = "(start + i) mod index_slots (hdr t)"
  from Cons.prems[of i] obtain sl where sl: "read_slot t ?j = Inr sl" by auto
  have ka: "key_at t ?j = key sl" using sl by (simp add: key_at_def)
  have j0: "0 \<le> ?j" using assms(2) by simp
  note ih = Cons.IH[OF Cons.prems, simplified]
  show ?case
  proof (cases "key sl = k \<or> key sl = 0")
    case True
    then show ?thesis using sl ka by (auto simp: Let_def TOMBSTONE_KEY_def)
  next
    case False
    define D where "D = dropWhile (\<lambda>j. key_at t j \<noteq> 0 \<and> key_at t j \<noteq> k)
                 (map (\<lambda>i. (start + i) mod index_slots (hdr t)) is)"
    define T where "T = takeWhile (\<lambda>j. key_at t j \<noteq> 0 \<and> key_at t j \<noteq> k)
                 (map (\<lambda>i. (start + i) mod index_slots (hdr t)) is)"
    define ft' where "ft' = (if key sl = TOMBSTONE_KEY \<and> ft < 0 then ?j else ft)"
    have dw: "dropWhile (\<lambda>j. key_at t j \<noteq> 0 \<and> key_at t j \<noteq> k)
                 (map (\<lambda>i. (start + i) mod index_slots (hdr t)) (i # is)) = D"
      and tw: "takeWhile (\<lambda>j. key_at t j \<noteq> 0 \<and> key_at t j \<noteq> k)
                 (map (\<lambda>i. (start + i) mod index_slots (hdr t)) (i # is)) = ?j # T"
      using False ka by (simp_all add: D_def T_def)
    have lhs: "find_slot_loop t k start ft (i # is) = find_slot_loop t k start ft' is"
      using False sl by (simp add: Let_def ft'_def)
    have ih: "find_slot_loop t k start ft' is
       = (case D of
            [] \<Rightarrow> Inl IndexFull
          | s # rest \<Rightarrow>
              if key_at t s = k then Inl DuplicateKey
              else Inr (if 0 \<le> ft' then ft'
                        else case List.find (\<lambda>j. key_at t j = TOMBSTONE_KEY) T of
                               None \<Rightarrow> s
                             | Some f \<Rightarrow> f))"
      unfolding D_def T_def using Cons.IH[OF Cons.prems, of ft'] by simp
    show ?thesis unfolding lhs dw tw ih
      using ka j0 by (cases D) (auto simp: ft'_def)
  qed
qed


lemma chain_readable:
  assumes "index_present t" "0 < index_slots (hdr t)"
  shows "\<exists>sl. read_slot t ((start + i) mod index_slots (hdr t)) = Inr sl"
  by (rule read_slot_present) (use assms in simp_all)

lemma find_loop_stop_neg:
  assumes "\<And>i. i \<in> set is \<Longrightarrow> \<exists>sl. read_slot t ((start + i) mod index_slots (hdr t)) = Inr sl"
    and "0 < index_slots (hdr t)" and "ft < 0"
  shows "find_slot_loop t k start ft is
       = (case dropWhile (\<lambda>j. key_at t j \<noteq> 0 \<and> key_at t j \<noteq> k)
                 (map (\<lambda>i. (start + i) mod index_slots (hdr t)) is) of
            [] \<Rightarrow> Inl IndexFull
          | s # rest \<Rightarrow>
              if key_at t s = k then Inl DuplicateKey
              else Inr (case List.find (\<lambda>j. key_at t j = TOMBSTONE_KEY)
                               (takeWhile (\<lambda>j. key_at t j \<noteq> 0 \<and> key_at t j \<noteq> k)
                                  (map (\<lambda>i. (start + i) mod index_slots (hdr t)) is)) of
                          None \<Rightarrow> s
                        | Some f \<Rightarrow> f))"
proof -
  define D where "D = dropWhile (\<lambda>j. key_at t j \<noteq> 0 \<and> key_at t j \<noteq> k)
                 (map (\<lambda>i. (start + i) mod index_slots (hdr t)) is)"
  define T where "T = takeWhile (\<lambda>j. key_at t j \<noteq> 0 \<and> key_at t j \<noteq> k)
                 (map (\<lambda>i. (start + i) mod index_slots (hdr t)) is)"
  have e: "find_slot_loop t k start ft is
       = (case D of
            [] \<Rightarrow> Inl IndexFull
          | s # rest \<Rightarrow>
              if key_at t s = k then Inl DuplicateKey
              else Inr (if 0 \<le> ft then ft
                        else case List.find (\<lambda>j. key_at t j = TOMBSTONE_KEY) T of
                               None \<Rightarrow> s
                             | Some f \<Rightarrow> f))"
    unfolding D_def T_def by (rule find_loop_stop[OF assms(1,2)])
  show ?thesis unfolding D_def[symmetric] T_def[symmetric] e
    using assms(3) by (cases D) simp_all
qed

lemma find_slot_for_insert_stop:
  assumes "index_present t" "0 < index_slots (hdr t)"
  shows "find_slot_for_insert t k
       = (case dropWhile (\<lambda>j. key_at t j \<noteq> 0 \<and> key_at t j \<noteq> k) (probe_chain t k) of
            [] \<Rightarrow> Inl IndexFull
          | s # rest \<Rightarrow>
              if key_at t s = k then Inl DuplicateKey
              else Inr (case List.find (\<lambda>j. key_at t j = TOMBSTONE_KEY)
                               (takeWhile (\<lambda>j. key_at t j \<noteq> 0 \<and> key_at t j \<noteq> k) (probe_chain t k)) of
                          None \<Rightarrow> s
                        | Some f \<Rightarrow> f))"
  unfolding probe_chain_def
  using find_loop_stop_neg[of "range_py (index_slots (hdr t))" t "k mod index_slots (hdr t)" "- 1" k,
          OF chain_readable[OF assms] assms(2)] assms(2)
  by (simp add: find_slot_for_insert_def hash_def)

lemma seed_insert_slot_stop:
  assumes "index_present t" "0 < index_slots (hdr t)"
  shows "seed_insert_slot t k
       = (case dropWhile (\<lambda>j. key_at t j \<noteq> 0 \<and> key_at t j \<noteq> k) (probe_chain t k) of
            [] \<Rightarrow> Inl IndexFull
          | s # rest \<Rightarrow> if key_at t s = 0 then Inr s else Inl DuplicateKey)"
  using seed_loop_stop[of "range_py (index_slots (hdr t))" t "k mod index_slots (hdr t)" k,
          OF chain_readable[OF assms]] assms(2)
  by (simp add: seed_insert_slot_def seed_find_slot_def hash_def probe_chain_def)

lemma probe_chain_range:
  assumes "0 < index_slots (hdr t)" "s \<in> set (probe_chain t k)"
  shows "0 \<le> s \<and> s < index_slots (hdr t)"
  using assms by (auto simp: probe_chain_def)

lemma probes_agree:
  assumes ip: "index_present t" and np: "\<not> probes_part t k"
  shows "seed_insert_slot t k = find_slot_for_insert t k"
proof (cases "index_slots (hdr t) = 0")
  case True
  then show ?thesis
    by (simp add: seed_insert_slot_def seed_find_slot_def find_slot_for_insert_def hash_def)
next
  case False
  then have n: "0 < index_slots (hdr t)" using ip by (simp add: index_present_def)
  define D where "D = dropWhile (\<lambda>j. key_at t j \<noteq> 0 \<and> key_at t j \<noteq> k) (probe_chain t k)"
  define T where "T = takeWhile (\<lambda>j. key_at t j \<noteq> 0 \<and> key_at t j \<noteq> k) (probe_chain t k)"
  note a = find_slot_for_insert_stop[OF ip n, of k, folded D_def T_def]
  note b = seed_insert_slot_stop[OF ip n, of k, folded D_def]
  note c = np[unfolded probes_part_def, folded D_def T_def]
  show ?thesis
  proof (cases D)
    case Nil
    then show ?thesis using a b by simp
  next
    case (Cons s rest)
    have "D \<noteq> []" using Cons by simp
    then have "\<not> (key_at t (hd D) \<noteq> 0 \<and> key_at t (hd D) \<noteq> k)"
      unfolding D_def by (rule hd_dropWhile)
    then have sk: "key_at t s = 0 \<or> key_at t s = k" using Cons by auto
    show ?thesis
    proof (cases "key_at t s = 0")
      case True
      then have "k \<noteq> 0" "\<not> list_ex (\<lambda>j. key_at t j = TOMBSTONE_KEY) T" using c Cons by simp_all
      then have "List.find (\<lambda>j. key_at t j = TOMBSTONE_KEY) T = None"
        by (simp add: find_None_iff list_ex_iff)
      then show ?thesis using a b Cons True \<open>k \<noteq> 0\<close> by simp
    next
      case False
      then show ?thesis using a b Cons sk by simp
    qed
  qed
qed

lemma probes_part_results:
  assumes ip: "index_present t" and pp: "probes_part t k"
  shows "\<exists>s. 0 \<le> s \<and> s < index_slots (hdr t) \<and> key_at t s = 0 \<and> seed_insert_slot t k = Inr s
           \<and> (if k = 0 then find_slot_for_insert t k = Inl DuplicateKey
               else \<exists>f. 0 \<le> f \<and> f < index_slots (hdr t) \<and> key_at t f = TOMBSTONE_KEY
                        \<and> k \<noteq> TOMBSTONE_KEY \<and> find_slot_for_insert t k = Inr f)"
proof -
  define D where "D = dropWhile (\<lambda>j. key_at t j \<noteq> 0 \<and> key_at t j \<noteq> k) (probe_chain t k)"
  define T where "T = takeWhile (\<lambda>j. key_at t j \<noteq> 0 \<and> key_at t j \<noteq> k) (probe_chain t k)"
  note c = pp[unfolded probes_part_def, folded D_def T_def]
  from c obtain s rest where D: "D = s # rest" by (cases D) simp_all
  have s0: "key_at t s = 0"
    and kt: "k = 0 \<or> list_ex (\<lambda>j. key_at t j = TOMBSTONE_KEY) T" using c D by simp_all
  have "s \<in> set D" using D by simp
  then have sc: "s \<in> set (probe_chain t k)" unfolding D_def by (rule set_dropWhileD)
  then have "index_slots (hdr t) \<noteq> 0" by (auto simp: probe_chain_def range_py_def)
  then have n: "0 < index_slots (hdr t)" using ip by (simp add: index_present_def)
  note a = find_slot_for_insert_stop[OF ip n, of k, folded D_def T_def]
  note b = seed_insert_slot_stop[OF ip n, of k, folded D_def]
  have sr: "0 \<le> s \<and> s < index_slots (hdr t)" by (rule probe_chain_range[OF n sc])
  have ss: "seed_insert_slot t k = Inr s" using b D s0 by simp
  show ?thesis
  proof (cases "k = 0")
    case True
    then show ?thesis using a D s0 sr ss by auto
  next
    case False
    then obtain f where f: "f \<in> set T" "key_at t f = TOMBSTONE_KEY" using kt by (auto simp: list_ex_iff)
    then obtain g where g: "List.find (\<lambda>j. key_at t j = TOMBSTONE_KEY) T = Some g"
      by (cases "List.find (\<lambda>j. key_at t j = TOMBSTONE_KEY) T") (auto simp: find_None_iff)
    then have gT: "g \<in> set T" "key_at t g = TOMBSTONE_KEY"
      by (auto simp: find_Some_iff)
    from gT(1) have gc: "g \<in> set (probe_chain t k)" "key_at t g \<noteq> k"
      unfolding T_def by (auto dest: set_takeWhileD)
    have gr: "0 \<le> g \<and> g < index_slots (hdr t)" by (rule probe_chain_range[OF n gc(1)])
    have "find_slot_for_insert t k = Inr g" using a D s0 False g by simp
    then show ?thesis using False sr s0 ss gr gT(2) gc(2) by auto
  qed
qed

lemma insert_probes_agree_iff:
  assumes ip: "index_present t"
  shows "seed_insert_slot t k = find_slot_for_insert t k \<longleftrightarrow> \<not> probes_part t k"
proof
  assume eq: "seed_insert_slot t k = find_slot_for_insert t k"
  show "\<not> probes_part t k"
  proof
    assume "probes_part t k"
    from probes_part_results[OF ip this] eq show False
      by (auto simp: TOMBSTONE_KEY_def split: if_splits)
  qed
next
  assume "\<not> probes_part t k"
  then show "seed_insert_slot t k = find_slot_for_insert t k" by (rule probes_agree[OF ip])
qed

section \<open>The two engines, operation by operation\<close>

lemma Header_pack_Inl: "Header_pack hr = Inl e \<Longrightarrow> e = StructError"
  using Header_pack_out_of_range[of hr] Header_pack_header_bytes[of hr]
  by (cases "header_in_range hr") simp_all

lemma add_prelude:
  assumes ip: "index_present t" and fh: "- 1 \<le> free_head (hdr t)"
    and al: "alloc_rec_index t = (Inr i, t1)" and w: "write_raw t1 i p = Inr t2"
  shows "0 \<le> i \<and> index_present t1 \<and> index_present t2 \<and> same_index t t2
         \<and> fbytes t1 = fbytes t \<and> hdr t2 = hdr t1 \<and> rsize t1 = rsize t \<and> rsize t2 = rsize t
         \<and> pad_off t1 = pad_off t \<and> pad_off t2 = pad_off t
         \<and> index_slots (hdr t1) = index_slots (hdr t)
         \<and> index_slots (hdr t2) = index_slots (hdr t)
         \<and> active_count (hdr t1) = active_count (hdr t)
         \<and> deleted_count (hdr t1) = deleted_count (hdr t)
         \<and> active_count (hdr t2) = active_count (hdr t)
         \<and> deleted_count (hdr t2) = deleted_count (hdr t)"
proof -
  have i0: "0 \<le> i"
  proof (cases "free_head (hdr t) = - 1")
    case True
    then have "records_count t = Inr i" using alloc_rec_index_Inr[OF al] by simp
    then show ?thesis
      by (auto simp: records_count_def Let_def pos_imp_zdiv_nonneg_iff split: if_splits)
  next
    case False
    then have "i = free_head (hdr t)" using alloc_rec_index_Inr[OF al] by simp
    then show ?thesis using fh False by simp
  qed
  from alloc_rec_index_frame[OF al] have
    f0: "fbytes t1 = fbytes t" "index_slots (hdr t1) = index_slots (hdr t)" "rsize t1 = rsize t"
        "pad_off t1 = pad_off t"
        "active_count (hdr t1) = active_count (hdr t)" "deleted_count (hdr t1) = deleted_count (hdr t)"
    by simp_all
  have ip1: "index_present t1" using ip f0 by (simp add: index_present_def records_region_ofs_def)
  have si1: "same_index t t1" using f0 by (simp add: same_index_def read_slot_def)
  from write_raw_frame[OF ip1 i0 w] have
    f2: "same_index t1 t2" "index_present t2" "hdr t2 = hdr t1" "rsize t2 = rsize t1"
        "pad_off t2 = pad_off t1" by simp_all
  show ?thesis using i0 ip1 f2 f0 same_index_trans[OF si1 f2(1)] by simp
qed

lemma same_index_key_at:
  "same_index t t' \<Longrightarrow> 0 \<le> j \<Longrightarrow> j < index_slots (hdr t) \<Longrightarrow> key_at t' j = key_at t j"
  by (simp add: same_index_def key_at_def)

lemma seed_find_slot_loop_cong:
  assumes "same_index t t'" "0 < index_slots (hdr t)"
  shows "seed_find_slot_loop t' k start is = seed_find_slot_loop t k start is"
proof (induction "is")
  case Nil
  then show ?case by simp
next
  case (Cons i "is")
  let ?j = "(start + i) mod index_slots (hdr t)"
  have "0 \<le> ?j" "?j < index_slots (hdr t)" using assms(2) by simp_all
  then have "read_slot t' ?j = read_slot t ?j" using assms(1) by (simp add: same_index_def)
  then show ?case using Cons assms(1) by (simp add: Let_def same_index_def split: sum.splits)
qed

lemma same_index_seed_insert_slot:
  assumes "index_present t" "same_index t t'"
  shows "seed_insert_slot t' k = seed_insert_slot t k"
proof (cases "index_slots (hdr t) = 0")
  case True
  then show ?thesis using assms(2)
    by (simp add: seed_insert_slot_def seed_find_slot_def hash_def same_index_def)
next
  case False
  then have "0 < index_slots (hdr t)" using assms(1) by (simp add: index_present_def)
  from seed_find_slot_loop_cong[OF assms(2) this] show ?thesis
    using assms(2) by (simp add: seed_insert_slot_def seed_find_slot_def hash_def same_index_def)
qed

lemma seed_add_record_alt:
  "seed_add_record now t k packed =
     (case alloc_rec_index t of
        (Inl e, t1) \<Rightarrow> (Inl e, t1)
      | (Inr i, t1) \<Rightarrow>
     (case write_raw t1 i packed of
        Inl e \<Rightarrow> (Inl e, t1)
      | Inr t2 \<Rightarrow>
     (case seed_insert_slot t2 k of
        Inl e \<Rightarrow> (Inl e, t2)
      | Inr j \<Rightarrow>
     (case write_slot t2 j \<lparr>key = k, rec_index = i\<rparr> of
        Inl e \<Rightarrow> (Inl e, t2)
      | Inr t3 \<Rightarrow>
     (case write_header now (t3\<lparr>hdr := (hdr t3)\<lparr>active_count := active_count (hdr t3) + 1\<rparr>\<rparr>) of
        (Inl e, t4) \<Rightarrow> (Inl e, t4)
      | (Inr u, t4) \<Rightarrow> (Inr i, t4))))))"
proof (cases "alloc_rec_index t")
  case (Pair r t1)
  show ?thesis
  proof (cases r)
    case (Inl e)
    then show ?thesis using Pair by (simp add: seed_add_record_def)
  next
    case i: (Inr i)
    show ?thesis
    proof (cases "write_raw t1 i packed")
      case (Inl e)
      then show ?thesis using Pair i by (simp add: seed_add_record_def)
    next
      case w: (Inr t2)
      show ?thesis
      proof (cases "seed_find_slot t2 k")
        case (Inl e)
        then show ?thesis using Pair i w by (simp add: seed_add_record_def seed_insert_slot_def)
      next
        case (Inr js)
        obtain j cur where js: "js = (j, cur)" by (cases js)
        show ?thesis using Pair i w Inr js
          by (cases cur) (simp_all add: seed_add_record_def seed_insert_slot_def)
      qed
    qed
  qed
qed

lemma adds_agree:
  assumes ip: "index_present t" and fh: "- 1 \<le> free_head (hdr t)" and np: "\<not> probes_part t k"
  shows "seed_add_record now t k p = add_record now t k p"
proof (cases "alloc_rec_index t")
  case (Pair r t1)
  show ?thesis
  proof (cases r)
    case (Inl e)
    then show ?thesis using Pair by (simp add: seed_add_record_alt add_record_def)
  next
    case (Inr i)
    have al: "alloc_rec_index t = (Inr i, t1)" using Pair Inr by simp
    show ?thesis
    proof (cases "write_raw t1 i p")
      case (Inl e)
      then show ?thesis using al by (simp add: seed_add_record_alt add_record_def)
    next
      case w: (Inr t2)
      from add_prelude[OF ip fh al w] have si: "same_index t t2" by simp
      have "seed_insert_slot t2 k = find_slot_for_insert t2 k"
        using probes_agree[OF ip np] same_index_seed_insert_slot[OF ip si]
          same_index_find_slot[OF ip si] by simp
      then show ?thesis using al w by (simp add: seed_add_record_alt add_record_def)
    qed
  qed
qed

lemma write_slot_succeeds:
  assumes "IndexSlot_pack sl = Inr b" "0 \<le> j"
  shows "\<exists>t3. write_slot t j sl = Inr t3"
  using assms by (simp add: write_slot_def index_ofs_def HEADER_SIZE_def INDEX_SLOT_SIZE_def file_write_def)

text \<open>The last two steps of either \<open>add_record\<close>: the slot write and the header write.\<close>

lemma slot_then_header:
  assumes ip: "index_present t2" and j: "0 \<le> j" "j < index_slots (hdr t2)"
    and pk: "IndexSlot_pack sl = Inr b"
  shows "\<exists>t3 r t4. write_slot t2 j sl = Inr t3
           \<and> write_header now (t3\<lparr>hdr := (hdr t3)\<lparr>active_count := active_count (hdr t3) + 1\<rparr>\<rparr>) = (r, t4)
           \<and> (\<forall>e. r = Inl e \<longrightarrow> e = StructError)
           \<and> read_slot t4 j = Inr sl
           \<and> (\<forall>j'. 0 \<le> j' \<and> j' < index_slots (hdr t2) \<and> j' \<noteq> j \<longrightarrow> read_slot t4 j' = read_slot t2 j')"
proof -
  from write_slot_succeeds[OF pk j(1)] obtain t3 where ws: "write_slot t2 j sl = Inr t3" by auto
  note e = write_slot_effect[OF ip j ws]
  define t3' where "t3' = t3\<lparr>hdr := (hdr t3)\<lparr>active_count := active_count (hdr t3) + 1\<rparr>\<rparr>"
  have ip3: "index_present t3'" using e by (simp add: t3'_def index_present_hdr_upd)
  have n3: "index_slots (hdr t3') = index_slots (hdr t2)" using e by (simp add: t3'_def)
  obtain r t4 where wh: "write_header now t3' = (r, t4)" by (cases "write_header now t3'")
  from write_header_frame[OF ip3 wh] have si: "same_index t3' t4" by simp
  have rs: "read_slot t4 j' = read_slot t3 j'" if "0 \<le> j'" "j' < index_slots (hdr t2)" for j'
    using si that n3 by (simp add: same_index_def t3'_def)
  have er: "e' = StructError" if "r = Inl e'" for e'
    using wh that by (auto simp: write_header_def Let_def split: sum.splits dest: Header_pack_Inl)
  show ?thesis using ws wh[unfolded t3'_def] er rs e j by auto
qed

lemma adds_differ:
  assumes ip: "index_present t" and fh: "- 1 \<le> free_head (hdr t)"
    and al: "alloc_rec_index t = (Inr i, t1)" and w: "write_raw t1 i p = Inr t2"
    and pk: "IndexSlot_pack \<lparr>key = k, rec_index = i\<rparr> = Inr b"
    and pp: "probes_part t k"
  shows "seed_add_record now t k p \<noteq> add_record now t k p"
proof -
  from add_prelude[OF ip fh al w] have
    si: "same_index t t2" and ip2: "index_present t2"
    and n2: "index_slots (hdr t2) = index_slots (hdr t)" by simp_all
  from probes_part_results[OF ip pp] obtain s where
    s: "0 \<le> s" "s < index_slots (hdr t)" "key_at t s = 0" "seed_insert_slot t k = Inr s"
    and r: "if k = 0 then find_slot_for_insert t k = Inl DuplicateKey
            else \<exists>f. 0 \<le> f \<and> f < index_slots (hdr t) \<and> key_at t f = TOMBSTONE_KEY
                     \<and> k \<noteq> TOMBSTONE_KEY \<and> find_slot_for_insert t k = Inr f"
    by auto
  have ss2: "seed_insert_slot t2 k = Inr s" using s(4) same_index_seed_insert_slot[OF ip si] by simp
  from slot_then_header[OF ip2 _ _ pk, of s now] s n2 obtain t3 rs t4 where
    ws: "write_slot t2 s \<lparr>key = k, rec_index = i\<rparr> = Inr t3"
    and wh: "write_header now (t3\<lparr>hdr := (hdr t3)\<lparr>active_count := active_count (hdr t3) + 1\<rparr>\<rparr>) = (rs, t4)"
    and er: "\<forall>e. rs = Inl e \<longrightarrow> e = StructError"
    and ot: "\<forall>j'. 0 \<le> j' \<and> j' < index_slots (hdr t2) \<and> j' \<noteq> s \<longrightarrow> read_slot t4 j' = read_slot t2 j'"
    by auto
  have seed: "seed_add_record now t k p = (case rs of Inl e \<Rightarrow> (Inl e, t4) | Inr u \<Rightarrow> (Inr i, t4))"
    using al w ss2 ws wh by (simp add: seed_add_record_alt split: sum.splits)
  show ?thesis
  proof (cases "k = 0")
    case True
    then have "find_slot_for_insert t2 k = Inl DuplicateKey"
      using r same_index_find_slot[OF ip si] by simp
    then have "add_record now t k p = (Inl DuplicateKey, t2)" using al w by (simp add: add_record_def)
    then show ?thesis using seed er by (auto split: sum.splits)
  next
    case False
    then obtain f where f: "0 \<le> f" "f < index_slots (hdr t)" "key_at t f = TOMBSTONE_KEY"
      "k \<noteq> TOMBSTONE_KEY" "find_slot_for_insert t k = Inr f" using r by auto
    have ff2: "find_slot_for_insert t2 k = Inr f" using f(5) same_index_find_slot[OF ip si] by simp
    have fs: "f \<noteq> s" using f(3) s(3) by (auto simp: TOMBSTONE_KEY_def)
    from slot_then_header[OF ip2 _ _ pk, of f now] f n2 obtain t3a ra t4a where
      wsa: "write_slot t2 f \<lparr>key = k, rec_index = i\<rparr> = Inr t3a"
      and wha: "write_header now (t3a\<lparr>hdr := (hdr t3a)\<lparr>active_count := active_count (hdr t3a) + 1\<rparr>\<rparr>) = (ra, t4a)"
      and rf: "read_slot t4a f = Inr \<lparr>key = k, rec_index = i\<rparr>"
      by auto
    have app: "add_record now t k p = (case ra of Inl e \<Rightarrow> (Inl e, t4a) | Inr u \<Rightarrow> (Inr i, t4a))"
      using al w ff2 wsa wha by (simp add: add_record_def split: sum.splits)
    have "read_slot t4 f = read_slot t2 f" using ot f fs n2 by simp
    moreover have "key_at t2 f = TOMBSTONE_KEY" using same_index_key_at[OF si f(1,2)] f(3) by simp
    ultimately have "key_at t4 f = TOMBSTONE_KEY" by (simp add: key_at_def)
    moreover have "key_at t4a f = k" using rf by (simp add: key_at_def)
    ultimately have "t4 \<noteq> t4a" using f(4) by auto
    then show ?thesis using seed app by (auto split: sum.splits)
  qed
qed

lemma seed_lookup_loop_eq: "seed_lookup_loop t k start is = lookup_loop t k start is"
  by (induction "is") (simp_all add: Let_def split: sum.splits)

lemma seed_lookup_eq: "seed_lookup t k = lookup t k"
  by (simp add: seed_lookup_def lookup_def seed_lookup_loop_eq cong: sum.case_cong)

lemma seed_read_record_eq: "seed_read_record t k = read_record t k"
  by (simp add: seed_read_record_def read_record_def seed_lookup_eq)

lemma seed_update_record_eq: "seed_update_record now t k p = update_record now t k p"
  by (simp add: seed_update_record_def update_record_def seed_lookup_eq)

lemma seed_open_existing_eq: "seed_open_existing c fb = open_existing c fb"
  by (simp add: seed_open_existing_def open_existing_def)

lemma seed_open_new_eq: "seed_open_new now now c = open_new now c"
  by (simp add: seed_open_new_def open_new_def seed_Header_new_def Header_new_def)

text \<open>
  Claim C2, amended. In a table whose file holds its index region and whose free-list
  head is a record index or the empty sentinel, the insert probe of the seeding tool and
  the insert probe of the application give \<open>add_record\<close> the same slot or the same error
  exactly when the probes do not part on the key (\<open>probes_part\<close>: the first slot of the
  key's chain that is empty or holds the key is empty, and the key is 0 or a tombstone
  stands before that slot). When they do not part, the two \<open>add_record\<close> return the
  same result and leave the same table, file bytes included. When they part and the call
  comes as far as the slot write (the allocation and the record write succeed and the
  slot packs), the two \<open>add_record\<close> differ in result or in table. \<open>read_record\<close>,
  \<open>update_record\<close> and \<open>open\<close> of an existing file agree on every table and file;
  \<open>open\<close> of a missing file agrees when both clock readings of the seeding tool's
  \<open>Header.new\<close> are the reading of the application's.
\<close>

theorem seed_engine_agrees_unless_probes_part:
  assumes ip: "index_present t" and fh: "- 1 \<le> free_head (hdr t)"
  shows "(seed_insert_slot t k = find_slot_for_insert t k \<longleftrightarrow> \<not> probes_part t k)
       \<and> (\<not> probes_part t k \<longrightarrow> seed_add_record now t k p = add_record now t k p)
       \<and> (probes_part t k \<and> alloc_rec_index t = (Inr i, t1) \<and> write_raw t1 i p = Inr t2
            \<and> IndexSlot_pack \<lparr>key = k, rec_index = i\<rparr> = Inr b
          \<longrightarrow> seed_add_record now t k p \<noteq> add_record now t k p)
       \<and> seed_read_record t k = read_record t k
       \<and> seed_update_record now t k p = update_record now t k p
       \<and> seed_open_existing c fb = open_existing c fb
       \<and> seed_open_new now now c = open_new now c"
  using insert_probes_agree_iff[OF ip, of k] adds_agree[OF ip fh, of k now p]
    adds_differ[OF ip fh, of i t1 p t2 k b now]
    seed_read_record_eq[of t k] seed_update_record_eq[of now t k p]
    seed_open_existing_eq[of c fb] seed_open_new_eq[of now c]
  by blast

lemma tombstoned_facts:
  "\<exists>t t1 t2 b.
     run_calls 7 (fresh_table 7 (Cars 4))
       [Add 1 (blank_record 128), Add 5 (blank_record 128), Delete 1]
       = ([Inr (Some 0), Inr (Some 1), Inr None], t)
     \<and> index_present t \<and> - 1 \<le> free_head (hdr t)
     \<and> key_at t 1 = TOMBSTONE_KEY
     \<and> \<not> probes_part t 2 \<and> probes_part t 9
     \<and> fst (add_record 8 t 2 (blank_record 128)) = Inr 0
     \<and> alloc_rec_index t = (Inr 0, t1) \<and> write_raw t1 0 (blank_record 128) = Inr t2
     \<and> IndexSlot_pack \<lparr>key = 9, rec_index = 0\<rparr> = Inr b
     \<and> read_record t 5 = Inr (Some (blank_record 128))"
  by (simp add: run_simps index_present_def records_region_layout length_fbytes_layout
        probes_part_def probe_chain_def key_at_def IndexSlot_pack_slot_bytes)

text \<open>The theorem at \<open>tombstoned_table\<close>, whose slot 1 holds a tombstone. Key 2 probes
  slots 2 and 3 and does not meet the tombstone: the probes do not part and the two
  \<open>add_record\<close> agree, returning record 0. Key 9 probes slot 1 first: the probes part and
  the two \<open>add_record\<close> differ.\<close>

theorem seed_engine_agrees_unless_probes_part_witness:
  "index_present tombstoned_table \<and> - 1 \<le> free_head (hdr tombstoned_table)
   \<and> key_at tombstoned_table 1 = TOMBSTONE_KEY
   \<and> \<not> probes_part tombstoned_table 2
   \<and> seed_insert_slot tombstoned_table 2 = find_slot_for_insert tombstoned_table 2
   \<and> seed_add_record 8 tombstoned_table 2 (blank_record 128)
       = add_record 8 tombstoned_table 2 (blank_record 128)
   \<and> fst (add_record 8 tombstoned_table 2 (blank_record 128)) = Inr 0
   \<and> probes_part tombstoned_table 9
   \<and> seed_insert_slot tombstoned_table 9 \<noteq> find_slot_for_insert tombstoned_table 9
   \<and> seed_add_record 8 tombstoned_table 9 (blank_record 128)
       \<noteq> add_record 8 tombstoned_table 9 (blank_record 128)
   \<and> seed_read_record tombstoned_table 5 = Inr (Some (blank_record 128))"
proof -
  from tombstoned_facts obtain t t1 t2 b where
    run: "run_calls 7 (fresh_table 7 (Cars 4))
       [Add 1 (blank_record 128), Add 5 (blank_record 128), Delete 1]
       = ([Inr (Some 0), Inr (Some 1), Inr None], t)"
    and ip: "index_present t" and fh: "- 1 \<le> free_head (hdr t)"
    and h: "key_at t 1 = TOMBSTONE_KEY" "\<not> probes_part t 2" "probes_part t 9"
       "fst (add_record 8 t 2 (blank_record 128)) = Inr 0"
       "alloc_rec_index t = (Inr 0, t1)" "write_raw t1 0 (blank_record 128) = Inr t2"
       "IndexSlot_pack \<lparr>key = 9, rec_index = 0\<rparr> = Inr b"
       "read_record t 5 = Inr (Some (blank_record 128))"
    by (elim exE conjE)
  have t: "tombstoned_table = t" using run by (simp add: tombstoned_table_def)
  from seed_engine_agrees_unless_probes_part[OF ip fh, where k = 2 and now = 8 and p = "blank_record 128"]
    seed_engine_agrees_unless_probes_part[OF ip fh, where k = 9 and now = 8 and p = "blank_record 128"
      and i = 0 and ?t1.0 = t1 and ?t2.0 = t2 and b = b]
    seed_engine_agrees_unless_probes_part[OF ip fh, where k = 5 and now = 8]
    ip fh h
  show ?thesis unfolding t by simp
qed

section \<open>An add that fails at the index\<close>

lemma Header_unpack_header_bytes:
  assumes "header_in_range hr" "length (magic hr) = 4"
  shows "Header_unpack (header_bytes hr) = Inr hr"
proof -
  have fh: "unpack_i (le_bytes 4 (free_head hr mod 4294967296)) = free_head hr"
    using unpack_i_pack_i[of "free_head hr" "le_bytes 4 (free_head hr mod 4294967296)"] assms(1)
    by (simp add: pack_i_def header_in_range_def)
  show ?thesis
    using assms fh
    by (simp add: Header_unpack_def header_bytes_def slice_def header_in_range_def le_int_le_bytes
          del: le_bytes.simps)
qed










section \<open>The record codecs\<close>

lemma unat_byte: "x < 256 \<Longrightarrow> unat (of_nat x :: byte) = x"
  by (simp add: unat_of_nat)

lemma split64:
  fixes c :: nat
  shows "c = 64 * (c div 64) + c mod 64" "c mod 64 < 64"
    "c div 4096 = c div 64 div 64" "c div 262144 = c div 64 div 64 div 64"
proof -
  show "c = 64 * (c div 64) + c mod 64" by simp
  show "c mod 64 < 64" by simp
  have "c div (64 * 64) = c div 64 div 64" by (rule div_mult2_eq)
  then show a: "c div 4096 = c div 64 div 64" by simp
  have "c div (4096 * 64) = c div 4096 div 64" by (rule div_mult2_eq)
  then show "c div 262144 = c div 64 div 64 div 64" using a by simp
qed

lemma decode_encode_cp:
  assumes "c < 1114112" "\<not> (55296 \<le> c \<and> c \<le> 57343)"
  shows "utf8_decode (utf8_encode_cp c @ rest) = c # utf8_decode rest"
proof -
  define x where "x = c div 64"
  define y where "y = x div 64"
  define z where "z = y div 64"
  define r0 where "r0 = c mod 64"
  define r1 where "r1 = x mod 64"
  define r2 where "r2 = y mod 64"
  have c: "c = 64 * x + r0" "r0 < 64" unfolding x_def r0_def by simp_all
  have x: "x = 64 * y + r1" "r1 < 64" unfolding y_def r1_def by simp_all
  have y: "y = 64 * z + r2" "r2 < 64" unfolding z_def r2_def by simp_all
  have d: "c div 64 = x" "c mod 64 = r0" "c div 4096 = y" "c div 64 mod 64 = r1"
    "c div 262144 = z" "c div 4096 mod 64 = r2" "x mod 64 = r1" "y mod 64 = r2"
    using split64(3,4)[of c] by (simp_all add: x_def y_def z_def r0_def r1_def r2_def)
  consider "c < 128" | "128 \<le> c" "c < 2048" | "2048 \<le> c" "c < 65536" | "65536 \<le> c"
    by linarith
  then show ?thesis
  proof cases
    case 1
    then show ?thesis by (simp add: utf8_encode_cp_def unat_byte Let_def)
  next
    case 2
    have a: "2 \<le> x" "x < 32" using 2 c by linarith+
    have e: "utf8_encode_cp c = [of_nat (192 + x), of_nat (128 + r0)]"
      using 2 by (simp add: utf8_encode_cp_def d)
    have u: "unat (of_nat (192 + x) :: byte) = 192 + x" "unat (of_nat (128 + r0) :: byte) = 128 + r0"
      using unat_byte[of "192 + x"] unat_byte[of "128 + r0"] a c(2) by simp_all
    have "x * 64 + r0 = c" using c by simp
    then show ?thesis unfolding e using a c(2) u
      by (simp add: Let_def is_cont_def)
  next
    case 3
    have a: "y < 16" using 3 c x by linarith
    have e: "utf8_encode_cp c = [of_nat (224 + y), of_nat (128 + r1), of_nat (128 + r0)]"
      using 3 assms(2) by (simp add: utf8_encode_cp_def d)
    have u: "unat (of_nat (224 + y) :: byte) = 224 + y" "unat (of_nat (128 + r1) :: byte) = 128 + r1"
      "unat (of_nat (128 + r0) :: byte) = 128 + r0"
      using unat_byte[of "224 + y"] unat_byte[of "128 + r1"] unat_byte[of "128 + r0"] a c(2) x(2)
      by simp_all
    have s: "second_ok3 (224 + y) (128 + r1)"
    proof -
      have "y = 0 \<Longrightarrow> 32 \<le> r1" using 3 c x by linarith
      moreover have "y = 13 \<Longrightarrow> r1 < 32" using assms(2) c x by linarith
      ultimately show ?thesis using x(2) by (auto simp: second_ok3_def)
    qed
    have "y * 4096 + r1 * 64 + r0 = c" using c x by simp
    then show ?thesis unfolding e using a c(2) x(2) u s
      by (simp add: Let_def is_cont_def)
  next
    case 4
    have a: "z < 5" using assms(1) c x y by linarith
    have e: "utf8_encode_cp c = [of_nat (240 + z), of_nat (128 + r2), of_nat (128 + r1), of_nat (128 + r0)]"
      using 4 by (simp add: utf8_encode_cp_def d)
    have u: "unat (of_nat (240 + z) :: byte) = 240 + z" "unat (of_nat (128 + r2) :: byte) = 128 + r2"
      "unat (of_nat (128 + r1) :: byte) = 128 + r1" "unat (of_nat (128 + r0) :: byte) = 128 + r0"
      using unat_byte[of "240 + z"] unat_byte[of "128 + r2"] unat_byte[of "128 + r1"]
        unat_byte[of "128 + r0"] a c(2) x(2) y(2)
      by simp_all
    have s: "second_ok4 (240 + z) (128 + r2)"
    proof -
      have "z = 0 \<Longrightarrow> 16 \<le> r2" using 4 c x y by linarith
      moreover have "z = 4 \<Longrightarrow> r2 < 16" using assms(1) c x y by linarith
      ultimately show ?thesis using y(2) by (auto simp: second_ok4_def)
    qed
    have "z * 262144 + r2 * 4096 + r1 * 64 + r0 = c" using c x y by simp
    then show ?thesis unfolding e using a c(2) x(2) y(2) u s
      by (simp add: Let_def is_cont_def)
  qed
qed

lemma decode_encode: "valid_str s \<Longrightarrow> utf8_decode (utf8_encode s) = s"
proof (induction s)
  case Nil
  then show ?case by (simp add: utf8_encode_def)
next
  case (Cons c s)
  then have "valid_str s" "c < 1114112" "\<not> (55296 \<le> c \<and> c \<le> 57343)"
    by (simp_all add: valid_str_def)
  then show ?case using Cons.IH decode_encode_cp[of c "utf8_encode s"]
    by (simp add: utf8_encode_def)
qed

lemma rstrip0_padded:
  assumes "b = [] \<or> last b \<noteq> 0"
  shows "rstrip0 (b @ replicate k 0) = b"
proof -
  have "dropWhile (\<lambda>x. x = 0) (replicate k (0::byte) @ rev b) = dropWhile (\<lambda>x. x = 0) (rev b)"
    by (induction k) simp_all
  moreover have "dropWhile (\<lambda>x. x = 0) (rev b) = rev b"
  proof (cases "b = []")
    case True
    then show ?thesis by simp
  next
    case False
    then have "hd (rev b) \<noteq> 0" using assms by (simp add: hd_rev)
    then show ?thesis using False by (cases "rev b") simp_all
  qed
  ultimately show ?thesis by (simp add: rstrip0_def)
qed

lemma length_fit [simp]: "length (fit s n) = n"
  by (simp add: fit_def Let_def)

lemma dec_fit: "text_ok n s \<Longrightarrow> dec (fit s n) = s"
  by (simp add: text_ok_def fit_def Let_def dec_def rstrip0_padded decode_encode)

lemma pack_s_fit: "pack_s n (fit s n) = Inr (fit s n)"
  by (simp add: pack_s_def)

lemma pack_ok:
  "in_B v \<Longrightarrow> pack_B v = Inr (le_bytes 1 v)"
  "in_H v \<Longrightarrow> pack_H v = Inr (le_bytes 2 v)"
  "in_I v \<Longrightarrow> pack_I v = Inr (le_bytes 4 v)"
  by (simp_all add: in_B_def in_H_def in_I_def pack_B_def pack_H_def pack_I_def pack_uint_def
        del: le_bytes.simps)

lemma le_int_ok:
  "in_B v \<Longrightarrow> le_int (le_bytes 1 v) = v"
  "in_H v \<Longrightarrow> le_int (le_bytes 2 v) = v"
  "in_I v \<Longrightarrow> le_int (le_bytes 4 v) = v"
  using le_int_le_bytes[of v 1] le_int_le_bytes[of v 2] le_int_le_bytes[of v 4]
  by (simp_all add: in_B_def in_H_def in_I_def del: le_bytes.simps)

lemma le_int_ok_Suc: "in_B v \<Longrightarrow> le_int (le_bytes (Suc 0) v) = v"
  using le_int_ok(1)[of v] by (simp del: le_bytes.simps)

lemma Customers_unpack_chunks:
  assumes "length a = 1" "length b = 4" "length c = 13" "length d = 50" "length e = 10"
    "length f = 4" "length g = 1"
  shows "Customers_unpack (a @ b @ c @ d @ e @ f @ g @ replicate 45 0)
         = Inr \<lparr> cu_flag = le_int a, cu_cus_id = le_int b, cu_id_card = dec c, cu_name = dec d,
                 cu_phone = dec e, cu_birth_ymd = le_int f, cu_gender = le_int g \<rparr>"
  using assms by (simp add: Customers_unpack_def slice_def)

lemma Cars_unpack_chunks:
  assumes "length a = 1" "length b = 4" "length c = 12" "length d = 12" "length e = 16"
    "length f = 2" "length g = 4" "length h = 4" "length i = 1" "length j = 4"
  shows "Cars_unpack (a @ b @ c @ d @ e @ f @ g @ h @ i @ j @ replicate 68 0)
         = Inr \<lparr> ca_flag = le_int a, ca_car_id = le_int b, ca_license = dec c, ca_brand = dec d,
                 ca_model = dec e, ca_year = le_int f, ca_rate_cents = le_int g,
                 ca_odometer_km = le_int h, ca_status = le_int i, ca_updated_at = le_int j \<rparr>"
  using assms by (simp add: Cars_unpack_def slice_def)

lemma Contracts_unpack_chunks:
  assumes "length a = 1" "length b = 4" "length c = 4" "length d = 4" "length e = 4"
    "length f = 4" "length g = 4" "length h = 1"
  shows "Contracts_unpack (a @ b @ c @ d @ e @ f @ g @ h @ replicate 38 0)
         = Inr \<lparr> co_flag = le_int a, co_rent_id = le_int b, co_cus_id = le_int c,
                 co_car_id = le_int d, co_rent_ymd = le_int e, co_return_ymd = le_int f,
                 co_total_cents = le_int g, co_returned = le_int h \<rparr>"
  using assms by (simp add: Contracts_unpack_def slice_def)

lemma Customers_round_trip:
  assumes "in_B flag" "in_I cid" "text_ok 13 id_card" "text_ok 50 name" "text_ok 10 phone"
    "in_I birth_ymd" "in_B gender"
  shows "\<exists>b. Customers_pack flag cid id_card name phone birth_ymd gender = Inr b
           \<and> length b = 128
           \<and> Customers_unpack b
               = Inr \<lparr> cu_flag = flag, cu_cus_id = cid, cu_id_card = id_card, cu_name = name,
                       cu_phone = phone, cu_birth_ymd = birth_ymd, cu_gender = gender \<rparr>"
proof -
  let ?b = "le_bytes 1 flag @ le_bytes 4 cid @ fit id_card 13 @ fit name 50 @ fit phone 10
            @ le_bytes 4 birth_ymd @ le_bytes 1 gender @ replicate 45 0"
  have p: "Customers_pack flag cid id_card name phone birth_ymd gender = Inr ?b"
    using assms by (simp add: Customers_pack_def pack_ok pack_s_fit pack_x_def del: le_bytes.simps)
  have u: "Customers_unpack ?b
      = Inr \<lparr> cu_flag = flag, cu_cus_id = cid, cu_id_card = id_card, cu_name = name,
              cu_phone = phone, cu_birth_ymd = birth_ymd, cu_gender = gender \<rparr>"
    using assms by (simp add: Customers_unpack_chunks le_int_ok le_int_ok_Suc dec_fit del: le_bytes.simps)
  have "length ?b = 128" by simp
  with p u show ?thesis by (intro exI[of _ ?b]) simp
qed

lemma Cars_round_trip:
  assumes "in_B flag" "in_I car_id" "text_ok 12 plate" "text_ok 12 brand" "text_ok 16 model"
    "in_H year" "in_I rate_cents" "in_I odo_km" "in_B status" "in_I upd"
  shows "\<exists>b. Cars_pack flag car_id plate brand model year rate_cents odo_km status upd = Inr b
           \<and> length b = 128
           \<and> Cars_unpack b
               = Inr \<lparr> ca_flag = flag, ca_car_id = car_id, ca_license = plate, ca_brand = brand,
                       ca_model = model, ca_year = year, ca_rate_cents = rate_cents,
                       ca_odometer_km = odo_km, ca_status = status, ca_updated_at = upd \<rparr>"
proof -
  let ?b = "le_bytes 1 flag @ le_bytes 4 car_id @ fit plate 12 @ fit brand 12 @ fit model 16
            @ le_bytes 2 year @ le_bytes 4 rate_cents @ le_bytes 4 odo_km @ le_bytes 1 status
            @ le_bytes 4 upd @ replicate 68 0"
  have p: "Cars_pack flag car_id plate brand model year rate_cents odo_km status upd = Inr ?b"
    using assms by (simp add: Cars_pack_def pack_ok pack_s_fit pack_x_def del: le_bytes.simps)
  have u: "Cars_unpack ?b
      = Inr \<lparr> ca_flag = flag, ca_car_id = car_id, ca_license = plate, ca_brand = brand,
              ca_model = model, ca_year = year, ca_rate_cents = rate_cents,
              ca_odometer_km = odo_km, ca_status = status, ca_updated_at = upd \<rparr>"
    using assms by (simp add: Cars_unpack_chunks le_int_ok le_int_ok_Suc dec_fit del: le_bytes.simps)
  have "length ?b = 128" by simp
  with p u show ?thesis by (intro exI[of _ ?b]) simp
qed

lemma Contracts_round_trip:
  assumes "in_B flag" "in_I rid" "in_I cus_id" "in_I car_id" "in_I rent" "in_I ret" "in_I tot"
    "in_B returned"
  shows "\<exists>b. Contracts_pack flag rid cus_id car_id rent ret tot returned = Inr b
           \<and> length b = 64
           \<and> Contracts_unpack b
               = Inr \<lparr> co_flag = flag, co_rent_id = rid, co_cus_id = cus_id, co_car_id = car_id,
                       co_rent_ymd = rent, co_return_ymd = ret, co_total_cents = tot,
                       co_returned = returned \<rparr>"
proof -
  let ?b = "le_bytes 1 flag @ le_bytes 4 rid @ le_bytes 4 cus_id @ le_bytes 4 car_id
            @ le_bytes 4 rent @ le_bytes 4 ret @ le_bytes 4 tot @ le_bytes 1 returned
            @ replicate 38 0"
  have p: "Contracts_pack flag rid cus_id car_id rent ret tot returned = Inr ?b"
    using assms by (simp add: Contracts_pack_def pack_ok pack_x_def del: le_bytes.simps)
  have u: "Contracts_unpack ?b
      = Inr \<lparr> co_flag = flag, co_rent_id = rid, co_cus_id = cus_id, co_car_id = car_id,
              co_rent_ymd = rent, co_return_ymd = ret, co_total_cents = tot,
              co_returned = returned \<rparr>"
    using assms by (simp add: Contracts_unpack_chunks le_int_ok le_int_ok_Suc del: le_bytes.simps)
  have "length ?b = 64" by simp
  with p u show ?thesis by (intro exI[of _ ?b]) simp
qed

text \<open>
  Claim C7 (codec round trip). For each of the three record types, when every numeric
  field is within the range of its unsigned format code (\<open>B\<close>, \<open>H\<close>, \<open>I\<close>) and every text
  field is representable in its width, \<open>pack\<close> returns a record of the table's record
  size and \<open>unpack\<close> of that record returns every field as it was given. A text is
  representable in \<open>n\<close> bytes (\<open>text_ok\<close>) when it consists of Unicode scalar values
  (code points below \<open>0x110000\<close> that are not surrogates: these are the code points that
  have a UTF-8 encoding, and the lenient encoder drops a lone surrogate), its encoding is
  at most \<open>n\<close> bytes long, the full width included, and the encoding does not end in a
  zero byte.
\<close>

theorem codec_round_trip:
  "(in_B flag \<and> in_I cid \<and> text_ok 13 id_card \<and> text_ok 50 name \<and> text_ok 10 phone
      \<and> in_I birth_ymd \<and> in_B gender
    \<longrightarrow> (\<exists>b. Customers_pack flag cid id_card name phone birth_ymd gender = Inr b
            \<and> length b = 128
            \<and> Customers_unpack b
                = Inr \<lparr> cu_flag = flag, cu_cus_id = cid, cu_id_card = id_card, cu_name = name,
                        cu_phone = phone, cu_birth_ymd = birth_ymd, cu_gender = gender \<rparr>))
   \<and> (in_B cflag \<and> in_I car_id \<and> text_ok 12 plate \<and> text_ok 12 brand \<and> text_ok 16 model
      \<and> in_H year \<and> in_I rate_cents \<and> in_I odo_km \<and> in_B status \<and> in_I upd
    \<longrightarrow> (\<exists>b. Cars_pack cflag car_id plate brand model year rate_cents odo_km status upd = Inr b
            \<and> length b = 128
            \<and> Cars_unpack b
                = Inr \<lparr> ca_flag = cflag, ca_car_id = car_id, ca_license = plate, ca_brand = brand,
                        ca_model = model, ca_year = year, ca_rate_cents = rate_cents,
                        ca_odometer_km = odo_km, ca_status = status, ca_updated_at = upd \<rparr>))
   \<and> (in_B rflag \<and> in_I rid \<and> in_I rcus \<and> in_I rcar \<and> in_I rent \<and> in_I ret \<and> in_I tot
      \<and> in_B returned
    \<longrightarrow> (\<exists>b. Contracts_pack rflag rid rcus rcar rent ret tot returned = Inr b
            \<and> length b = 64
            \<and> Contracts_unpack b
                = Inr \<lparr> co_flag = rflag, co_rent_id = rid, co_cus_id = rcus, co_car_id = rcar,
                        co_rent_ymd = rent, co_return_ymd = ret, co_total_cents = tot,
                        co_returned = returned \<rparr>))"
  using Customers_round_trip[of flag cid id_card name phone birth_ymd gender]
    Cars_round_trip[of cflag car_id plate brand model year rate_cents odo_km status upd]
    Contracts_round_trip[of rflag rid rcus rcar rent ret tot returned]
  by blast

text \<open>The theorem at one record of each type. The customer's id card (13 digits) and
  phone (10 digits) and the car's plate (two Thai letters and six ASCII characters, 12
  bytes) fill their fields exactly; the name holds three-byte characters, the model a
  four-byte character; year, total and timestamp are the largest values of their
  widths.\<close>

theorem codec_round_trip_witness:
  "text_ok 13 [49, 49, 48, 51, 55, 48, 48, 48, 48, 48, 48, 48, 55]
   \<and> length (utf8_encode [49, 49, 48, 51, 55, 48, 48, 48, 48, 48, 48, 48, 55]) = 13
   \<and> text_ok 50 [3626, 3617, 32, 66]
   \<and> text_ok 10 [48, 56, 49, 50, 51, 52, 53, 54, 55, 56]
   \<and> length (utf8_encode [48, 56, 49, 50, 51, 52, 53, 54, 55, 56]) = 10
   \<and> (\<exists>b. Customers_pack 1 7 [49, 49, 48, 51, 55, 48, 48, 48, 48, 48, 48, 48, 55]
              [3626, 3617, 32, 66] [48, 56, 49, 50, 51, 52, 53, 54, 55, 56] 19900101 1 = Inr b
          \<and> length b = 128
          \<and> Customers_unpack b
              = Inr \<lparr> cu_flag = 1, cu_cus_id = 7,
                      cu_id_card = [49, 49, 48, 51, 55, 48, 48, 48, 48, 48, 48, 48, 55],
                      cu_name = [3626, 3617, 32, 66],
                      cu_phone = [48, 56, 49, 50, 51, 52, 53, 54, 55, 56],
                      cu_birth_ymd = 19900101, cu_gender = 1 \<rparr>)
   \<and> text_ok 12 [3585, 3586, 45, 49, 50, 51, 52, 53]
   \<and> length (utf8_encode [3585, 3586, 45, 49, 50, 51, 52, 53]) = 12
   \<and> text_ok 16 [128663, 86]
   \<and> (\<exists>b. Cars_pack 1 3 [3585, 3586, 45, 49, 50, 51, 52, 53] [84, 111, 121] [128663, 86]
              65535 150000 42000 0 4294967295 = Inr b
          \<and> length b = 128
          \<and> Cars_unpack b
              = Inr \<lparr> ca_flag = 1, ca_car_id = 3,
                      ca_license = [3585, 3586, 45, 49, 50, 51, 52, 53],
                      ca_brand = [84, 111, 121], ca_model = [128663, 86], ca_year = 65535,
                      ca_rate_cents = 150000, ca_odometer_km = 42000, ca_status = 0,
                      ca_updated_at = 4294967295 \<rparr>)
   \<and> (\<exists>b. Contracts_pack 1 1 7 3 20240101 20240105 4294967295 0 = Inr b
          \<and> length b = 64
          \<and> Contracts_unpack b
              = Inr \<lparr> co_flag = 1, co_rent_id = 1, co_cus_id = 7, co_car_id = 3,
                      co_rent_ymd = 20240101, co_return_ymd = 20240105,
                      co_total_cents = 4294967295, co_returned = 0 \<rparr>)"
proof -
  have t: "text_ok 13 [49, 49, 48, 51, 55, 48, 48, 48, 48, 48, 48, 48, 55]"
    "length (utf8_encode [49, 49, 48, 51, 55, 48, 48, 48, 48, 48, 48, 48, 55]) = 13"
    "text_ok 50 [3626, 3617, 32, 66]"
    "text_ok 10 [48, 56, 49, 50, 51, 52, 53, 54, 55, 56]"
    "length (utf8_encode [48, 56, 49, 50, 51, 52, 53, 54, 55, 56]) = 10"
    "text_ok 12 [3585, 3586, 45, 49, 50, 51, 52, 53]"
    "length (utf8_encode [3585, 3586, 45, 49, 50, 51, 52, 53]) = 12"
    "text_ok 12 [84, 111, 121]"
    "text_ok 16 [128663, 86]"
    by (simp_all add: text_ok_def valid_str_def utf8_encode_def utf8_encode_cp_def)
  have n: "in_B 1" "in_B 0" "in_I 7" "in_I 19900101" "in_I 3" "in_H 65535" "in_I 150000"
    "in_I 42000" "in_I 4294967295" "in_I 1" "in_I 20240101" "in_I 20240105"
    by (simp_all add: in_B_def in_H_def in_I_def)
  from codec_round_trip[of 1 7 "[49, 49, 48, 51, 55, 48, 48, 48, 48, 48, 48, 48, 55]"
      "[3626, 3617, 32, 66]" "[48, 56, 49, 50, 51, 52, 53, 54, 55, 56]" 19900101 1
      1 3 "[3585, 3586, 45, 49, 50, 51, 52, 53]" "[84, 111, 121]" "[128663, 86]"
      65535 150000 42000 0 4294967295
      1 1 7 3 20240101 20240105 4294967295 0] t n
  show ?thesis by simp
qed

section \<open>The return-car operation\<close>

lemma length_Contracts_unpack: "Contracts_unpack raw = Inr r \<Longrightarrow> length raw = 64"
  by (simp add: Contracts_unpack_def split: if_splits)

lemma return_car_state: "snd (return_car now a rid_in ret_in) = a"
  by (simp add: return_car_def return_car_tail_def split: option.splits sum.splits)

text \<open>
  Claim C10 (return-car reads \<open>car\<close> before assigning it). Whenever both inputs parse,
  the contract is found and decodes, it is not yet returned and the return date is not
  before the rental date, \<open>return_car\<close> raises \<open>UnboundLocalError\<close> and leaves the three
  tables as they were. On every input, whatever it does, it leaves the three tables as
  they were: no path of \<open>return_car\<close> updates a contract or a car.
\<close>

theorem return_car_unbound:
  assumes "read_record (contracts a) rid = Inr (Some raw)"
    and "Contracts_unpack raw = Inr r"
    and "co_returned r \<noteq> 1" and "co_rent_ymd r \<le> ret"
  shows "return_car now a (Some rid) (Some ret) = (Inl UnboundLocalError, a)
         \<and> snd (return_car now' a' rid_in ret_in) = a'"
proof -
  have "raw \<noteq> []" using length_Contracts_unpack[OF assms(2)] by auto
  then have "return_car now a (Some rid) (Some ret) = (Inl UnboundLocalError, a)"
    using assms by (simp add: return_car_def return_car_tail_def)
  then show ?thesis using return_car_state by simp
qed

text \<open>The theorem at an application whose contracts table (four index slots) holds
  contract 1, rented on 2024-01-01 and open, with the return date 2024-01-05.\<close>

theorem return_car_unbound_witness:
  "\<exists>a raw r.
     Contracts_pack 1 1 7 3 20240101 0 0 0 = Inr raw
     \<and> read_record (contracts a) 1 = Inr (Some raw)
     \<and> Contracts_unpack raw = Inr r
     \<and> co_returned r = 0 \<and> co_rent_ymd r = 20240101
     \<and> return_car 9 a (Some 1) (Some 20240105) = (Inl UnboundLocalError, a)"
proof -
  have n: "in_B 1" "in_I 1" "in_I 7" "in_I 3" "in_I 20240101" "in_I 0" "in_B 0"
    by (simp_all add: in_B_def in_I_def)
  from Contracts_round_trip[OF n(1,2,3,4,5,6,6,7)] obtain raw where
    raw: "Contracts_pack 1 1 7 3 20240101 0 0 0 = Inr raw" "length raw = 64"
      "Contracts_unpack raw
         = Inr \<lparr> co_flag = 1, co_rent_id = 1, co_cus_id = 7, co_car_id = 3,
                 co_rent_ymd = 20240101, co_return_ymd = 0, co_total_cents = 0,
                 co_returned = 0 \<rparr>"
    by (elim exE conjE)
  have "\<exists>t. add_record 7 (fresh_table 7 (Contracts 4)) 1 raw = (Inr 0, t)
          \<and> read_record t 1 = Inr (Some raw)"
    using raw(2) by (simp add: run_simps)
  then obtain t where t: "read_record t 1 = Inr (Some raw)" by (elim exE conjE)
  define a where "a = \<lparr> customers = fresh_table 7 (Customers 4), cars = fresh_table 7 (Cars 4),
                         contracts = t \<rparr>"
  have rr: "read_record (contracts a) 1 = Inr (Some raw)" using t by (simp add: a_def)
  from return_car_unbound[OF rr raw(3), of 20240105 9] raw rr
  show ?thesis by (intro exI[of _ a] exI[of _ raw]) simp
qed

section \<open>Reading a header\<close>

lemma slice_one: "n < length b \<Longrightarrow> slice b n 1 = [b ! n]"
  by (simp add: slice_def take_Suc_conv_app_nth[of 0] Cons_nth_drop_Suc[symmetric])

lemma endian_is_byte5:
  assumes "128 \<le> length fb" "Header_unpack (take 128 fb) = Inr hl"
  shows "endian hl = 1 \<longleftrightarrow> fb ! 5 = 1"
proof -
  have "slice (take 128 fb) 5 1 = [fb ! 5]" using slice_one[of 5 "take 128 fb"] assms(1) by simp
  then have "endian hl = uint (fb ! 5)" using assms by (auto simp: Header_unpack_def split: if_splits)
  then show ?thesis by (simp add: word_uint_eq_iff)
qed

text \<open>
  Claim C8, amended (endianness fallback). Only the header inspector falls back. On a
  file of at least 128 bytes, \<open>read_header\<close> decodes the header little-endian, decodes
  it again big-endian exactly when byte 5 of the file, the endian flag, is 1, and
  reports the fields and the record count of the header it ends with. \<open>open\<close> of the
  storage engine, in the application and in the seeding tool alike, decodes the header
  little-endian whatever the flag says: it raises the bad-format error when the
  little-endian magic or record size is not the table's, and otherwise keeps the
  little-endian header. On a shorter file \<open>read_header\<close> reports a short header and
  \<open>open\<close> raises \<open>struct.error\<close>.
\<close>

theorem endian_fallback_only_in_inspector:
  "(length fb < 128 \<longrightarrow> read_header fb = Inl ShortHeader \<and> open_existing c fb = Inl StructError)
   \<and> (128 \<le> length fb \<longrightarrow>
        (\<exists>hl hb. Header_unpack (take 128 fb) = Inr hl \<and> Header_unpack_be (take 128 fb) = Inr hb
           \<and> read_header fb =
               (let hr = (if fb ! 5 = 1 then hb else hl);
                    size = int (length fb);
                    records_region = 128 + index_slots hr * 16
                in if size \<ge> records_region
                   then (if record_size hr = 0 then Inl ZeroDivisionError
                         else Inr (hr, size, (size - records_region) div record_size hr))
                   else Inr (hr, size, 0))
           \<and> open_existing c fb =
               (if magic hl \<noteq> tmagic c \<or> record_size hl \<noteq> int (rsize c) then Inl BadFormat
                else Inr \<lparr> tmagic = tmagic c, rsize = rsize c, slots = slots c,
                           pad_off = pad_off c, hdr = hl, fbytes = fb \<rparr>)))
   \<and> seed_open_existing c fb = open_existing c fb"
proof (intro conjI impI)
  assume "length fb < 128"
  then show "read_header fb = Inl ShortHeader" by (simp add: read_header_def Let_def)
next
  assume "length fb < 128"
  then show "open_existing c fb = Inl StructError"
    by (simp add: open_existing_def Header_unpack_def HEADER_SIZE_def)
next
  assume l: "128 \<le> length fb"
  then have l1: "length (take 128 fb) = 128" by simp
  obtain hl where hl: "Header_unpack (take 128 fb) = Inr hl"
    using l1 by (simp add: Header_unpack_def)
  obtain hb where hb: "Header_unpack_be (take 128 fb) = Inr hb"
    using l1 by (simp add: Header_unpack_be_def)
  note e = endian_is_byte5[OF l hl]
  have r: "read_header fb =
               (let hr = (if fb ! 5 = 1 then hb else hl);
                    size = int (length fb);
                    records_region = 128 + index_slots hr * 16
                in if size \<ge> records_region
                   then (if record_size hr = 0 then Inl ZeroDivisionError
                         else Inr (hr, size, (size - records_region) div record_size hr))
                   else Inr (hr, size, 0))"
    using l1 hl hb e by (simp add: read_header_def Let_def HEADER_SIZE_def INDEX_SLOT_SIZE_def)
  have o: "open_existing c fb =
               (if magic hl \<noteq> tmagic c \<or> record_size hl \<noteq> int (rsize c) then Inl BadFormat
                else Inr \<lparr> tmagic = tmagic c, rsize = rsize c, slots = slots c,
                           pad_off = pad_off c, hdr = hl, fbytes = fb \<rparr>)"
    using hl by (simp add: open_existing_def HEADER_SIZE_def)
  show "\<exists>hl hb. Header_unpack (take 128 fb) = Inr hl \<and> Header_unpack_be (take 128 fb) = Inr hb
           \<and> read_header fb =
               (let hr = (if fb ! 5 = 1 then hb else hl);
                    size = int (length fb);
                    records_region = 128 + index_slots hr * 16
                in if size \<ge> records_region
                   then (if record_size hr = 0 then Inl ZeroDivisionError
                         else Inr (hr, size, (size - records_region) div record_size hr))
                   else Inr (hr, size, 0))
           \<and> open_existing c fb =
               (if magic hl \<noteq> tmagic c \<or> record_size hl \<noteq> int (rsize c) then Inl BadFormat
                else Inr \<lparr> tmagic = tmagic c, rsize = rsize c, slots = slots c,
                           pad_off = pad_off c, hdr = hl, fbytes = fb \<rparr>)"
    using hl hb r o by blast
next
  show "seed_open_existing c fb = open_existing c fb" by (rule seed_open_existing_eq)
qed

lemma be_cars_file_decodes:
  "length be_cars_file = 192"
  "be_cars_file ! 5 = 1"
  "Header_unpack_be (take 128 be_cars_file)
     = Inr \<lparr> magic = [67, 65, 82, 83], version = 1, endian = 1, record_size = 128,
             created_at = 7, updated_at = 7, next_id = 1, active_count = 0,
             deleted_count = 0, free_head = - 1, index_slots = 4 \<rparr>"
  "Header_unpack (take 128 be_cars_file)
     = Inr \<lparr> magic = [67, 65, 82, 83], version = 1, endian = 1, record_size = 32768,
             created_at = 117440512, updated_at = 117440512, next_id = 16777216,
             active_count = 0, deleted_count = 0, free_head = - 1, index_slots = 67108864 \<rparr>"
  by (simp_all add: be_cars_file_def Header_unpack_be_def Header_unpack_def slice_def be_int_def
        unpack_i_def be_unpack_i_def Let_def)

text \<open>
  Claim C8, as stated, fails for \<open>open\<close>: \<open>be_cars_file\<close> is a Cars file whose header is
  written big-endian with the endian flag 1. \<open>read_header\<close> decodes it big-endian and
  reports record size 128 and four index slots; \<open>open\<close> of the Cars table, in the
  application and in the seeding tool, reads the record size little-endian as 32768 and
  raises the bad-format error. It does not retry.
\<close>

theorem open_never_retries_big_endian:
  "be_cars_file ! 5 = 1
   \<and> read_header be_cars_file
       = Inr (\<lparr> magic = [67, 65, 82, 83], version = 1, endian = 1, record_size = 128,
                created_at = 7, updated_at = 7, next_id = 1, active_count = 0,
                deleted_count = 0, free_head = - 1, index_slots = 4 \<rparr>, 192, 0)
   \<and> open_existing (Cars 4) be_cars_file = Inl BadFormat
   \<and> seed_open_existing (Cars 4) be_cars_file = Inl BadFormat"
  using be_cars_file_decodes
  by (simp add: read_header_def Let_def HEADER_SIZE_def INDEX_SLOT_SIZE_def open_existing_def
        seed_open_existing_def Cars_def CARS_SIZE_def)

lemma fresh_cars_file:
  "length (fbytes (fresh_table 7 (Cars 4))) = 192"
  "fbytes (fresh_table 7 (Cars 4)) ! 5 = 0"
  "Header_unpack (take 128 (fbytes (fresh_table 7 (Cars 4)))) = Inr (hdr (fresh_table 7 (Cars 4)))"
  "index_slots (hdr (fresh_table 7 (Cars 4))) = 4"
  "record_size (hdr (fresh_table 7 (Cars 4))) = 128"
  "magic (hdr (fresh_table 7 (Cars 4))) = tmagic (Cars 4)"
  "\<lparr> tmagic = tmagic (Cars 4), rsize = rsize (Cars 4), slots = slots (Cars 4),
     pad_off = pad_off (Cars 4), hdr = hdr (fresh_table 7 (Cars 4)),
     fbytes = fbytes (fresh_table 7 (Cars 4)) \<rparr> = fresh_table 7 (Cars 4)"
proof -
  let ?H = "Header_new (tmagic (Cars 4)) (int (rsize (Cars 4))) (slots (Cars 4)) 7"
  have hr: "header_in_range ?H" "length (magic ?H) = 4"
    by (simp_all add: header_in_range_def Header_new_def Cars_def CARS_SIZE_def)
  have f: "fbytes (fresh_table 7 (Cars 4))
             = header_bytes ?H @ concat (map slot_bytes (replicate 4 \<lparr>key = 0, rec_index = 0\<rparr>))"
    by (simp add: fresh_table_def layout_def Cars_def)
  show "length (fbytes (fresh_table 7 (Cars 4))) = 192"
    unfolding f by (simp add: replicate_4)
  show "fbytes (fresh_table 7 (Cars 4)) ! 5 = 0"
    unfolding f by (simp add: header_bytes_def Header_new_def Cars_def nth_append)
  show "Header_unpack (take 128 (fbytes (fresh_table 7 (Cars 4)))) = Inr (hdr (fresh_table 7 (Cars 4)))"
    unfolding f using Header_unpack_header_bytes[OF hr] by (simp add: fresh_table_def)
  show "index_slots (hdr (fresh_table 7 (Cars 4))) = 4"
    "record_size (hdr (fresh_table 7 (Cars 4))) = 128"
    "magic (hdr (fresh_table 7 (Cars 4))) = tmagic (Cars 4)"
    by (simp_all add: fresh_table_def Header_new_def Cars_def CARS_SIZE_def)
  show "\<lparr> tmagic = tmagic (Cars 4), rsize = rsize (Cars 4), slots = slots (Cars 4),
     pad_off = pad_off (Cars 4), hdr = hdr (fresh_table 7 (Cars 4)),
     fbytes = fbytes (fresh_table 7 (Cars 4)) \<rparr> = fresh_table 7 (Cars 4)"
    by (simp add: fresh_table_def layout_def)
qed

text \<open>The theorem at three files: \<open>be_cars_file\<close>, whose flag is 1; the file of a fresh
  Cars table with four index slots, whose flag is 0 and which \<open>open\<close> accepts; and the
  empty file.\<close>

theorem endian_fallback_only_in_inspector_witness:
  "128 \<le> length be_cars_file \<and> be_cars_file ! 5 = 1
   \<and> read_header be_cars_file
       = Inr (\<lparr> magic = [67, 65, 82, 83], version = 1, endian = 1, record_size = 128,
                created_at = 7, updated_at = 7, next_id = 1, active_count = 0,
                deleted_count = 0, free_head = - 1, index_slots = 4 \<rparr>, 192, 0)
   \<and> open_existing (Cars 4) be_cars_file = Inl BadFormat
   \<and> 128 \<le> length (fbytes (fresh_table 7 (Cars 4)))
   \<and> fbytes (fresh_table 7 (Cars 4)) ! 5 = 0
   \<and> read_header (fbytes (fresh_table 7 (Cars 4))) = Inr (hdr (fresh_table 7 (Cars 4)), 192, 0)
   \<and> open_existing (Cars 4) (fbytes (fresh_table 7 (Cars 4))) = Inr (fresh_table 7 (Cars 4))
   \<and> read_header [] = Inl ShortHeader \<and> open_existing (Cars 4) [] = Inl StructError"
proof -
  note b = be_cars_file_decodes
  note f = fresh_cars_file
  from endian_fallback_only_in_inspector[of be_cars_file "Cars 4"] b
  have 1: "read_header be_cars_file
       = Inr (\<lparr> magic = [67, 65, 82, 83], version = 1, endian = 1, record_size = 128,
                created_at = 7, updated_at = 7, next_id = 1, active_count = 0,
                deleted_count = 0, free_head = - 1, index_slots = 4 \<rparr>, 192, 0)
     \<and> open_existing (Cars 4) be_cars_file = Inl BadFormat"
    by (auto simp: Let_def Cars_def CARS_SIZE_def)
  from endian_fallback_only_in_inspector[of "fbytes (fresh_table 7 (Cars 4))" "Cars 4"] f
  have 2: "read_header (fbytes (fresh_table 7 (Cars 4))) = Inr (hdr (fresh_table 7 (Cars 4)), 192, 0)
     \<and> open_existing (Cars 4) (fbytes (fresh_table 7 (Cars 4))) = Inr (fresh_table 7 (Cars 4))"
    by (auto simp: Let_def Cars_def CARS_SIZE_def)
  from endian_fallback_only_in_inspector[of "[]" "Cars 4"]
  have 3: "read_header [] = Inl ShortHeader \<and> open_existing (Cars 4) [] = Inl StructError" by simp
  show ?thesis using 1 2 3 b(1,2) f(1,2) by simp
qed

end
